theory Spec2Isabelle
  imports Complex_Main "HOL-Library.Word" "HOL-Library.Multiset" "HOL-Library.Char_ord"
    "HOL-Library.AList" "HOL-Library.Sublist"
begin

chapter \<open>The model of the program\<close>

section \<open>Exceptions and configuration\<close>

text \<open>
  The Python exceptions that the modelled code can raise. A function that can raise
  returns \<open>error + 'a\<close>, with \<open>Inl\<close> for the exception.
\<close>

datatype error =
    AssertionError
  | StructError
  | KeyError
  | IndexError
  | ZeroDivisionError
  | UnicodeEncodeError
  | UnicodeDecodeError
  | AttributeError
  | ValueError

text \<open>\<open>PASSWORD_END = '\n'\<close>.\<close>

definition PASSWORD_END :: char where
  "PASSWORD_END = CHR 0x0A"

text \<open>
  \<open>class ModelDefaults\<close>: the configuration, with the fields that the modelled code
  reads. Probabilities are of an arbitrary type \<open>'p\<close>; the search only compares and
  multiplies them.
\<close>

record 'p ModelDefaults =
  char_bag :: string
  max_len :: int
  min_len :: int
  lower_probability_threshold :: 'p
  relevel_not_matching_passwords :: bool
  fork_length :: int
  simulated_frequency_optimization :: bool
  trie_implementation :: "string option"
  trie_serializer_type :: string
  toc_chunk_size :: int
  model_truncate_gradient :: int

text \<open>The class attributes of \<open>ModelDefaults\<close>, with the threshold \<open>10**-5\<close> given.\<close>

definition default_char_bag :: string where
  "default_char_bag =
     ''abcdefghijklmnopqrstuvwxyz'' @ ''ABCDEFGHIJKLMNOPQRSTUVWXYZ'' @ ''0123456789'' @
     ''~!@#$%^&*(),.<>/?'' @ [CHR 0x27, CHR 0x22] @ ''{}[]'' @ [CHR 0x5C] @ ''|-_=+;: '' @
     [CHR 0x60] @ [PASSWORD_END]"

definition defaults :: "'p \<Rightarrow> 'p ModelDefaults" where
  "defaults t =
     \<lparr> char_bag = default_char_bag, max_len = 40, min_len = 4,
       lower_probability_threshold = t, relevel_not_matching_passwords = True,
       fork_length = 2, simulated_frequency_optimization = False,
       trie_implementation = None, trie_serializer_type = ''reg'',
       toc_chunk_size = 1000, model_truncate_gradient = -1 \<rparr>"

text \<open>
  \<open>ModelDefaults.validate\<close>: a chain of \<open>assert\<close> statements; the first one that
  fails raises \<open>AssertionError\<close>.
\<close>

definition validate :: "'p ModelDefaults \<Rightarrow> error + unit" where
  "validate c =
     (if trie_serializer_type c = ''fuzzy'' \<and> \<not> simulated_frequency_optimization c
        then Inl AssertionError
      else if trie_serializer_type c = ''fuzzy'' \<and> trie_implementation c = None
        then Inl AssertionError
      else if \<not> fork_length c < min_len c
        then Inl AssertionError
      else if model_truncate_gradient c \<noteq> -1 \<and> \<not> model_truncate_gradient c < max_len c
        then Inl AssertionError
      else Inr ())"

section \<open>The probability-pruned search: \<open>GuessSerializer\<close>, \<open>CharacterTable\<close>, \<open>Guesser\<close>\<close>

text \<open>\<open>str.strip(PASSWORD_END)\<close>: removes the end markers at both ends of the string.\<close>

definition strip_end :: "string \<Rightarrow> string" where
  "strip_end s =
     rev (dropWhile (\<lambda>c. c = PASSWORD_END) (rev (dropWhile (\<lambda>c. c = PASSWORD_END) s)))"

text \<open>
  \<open>CharacterTable.__init__\<close>: \<open>self.chars = sorted(set(chars))\<close>, and
  \<open>char_indices\<close> maps every character to its position in that list.
  \<open>CharacterTable.fromConfig\<close> without the rare-character and upper-case
  optimisations (both off by default) builds the table from \<open>config.char_bag\<close>.
\<close>

definition ctable_chars :: "('p, 'z) ModelDefaults_scheme \<Rightarrow> string" where
  "ctable_chars c = sort (remdups (char_bag c))"

fun index_of :: "'a list \<Rightarrow> 'a \<Rightarrow> nat option" where
  "index_of [] x = None"
| "index_of (y # ys) x = (if x = y then Some 0 else map_option Suc (index_of ys x))"

text \<open>\<open>get_char_index\<close>: \<open>self.char_indices[character]\<close>, a \<open>KeyError\<close> for a
  character that is not in the table.\<close>

definition get_char_index :: "string \<Rightarrow> char \<Rightarrow> error + nat" where
  "get_char_index chars character =
     (case index_of chars character of None \<Rightarrow> Inl KeyError | Some i \<Rightarrow> Inr i)"

text \<open>\<open>Guesser.cond_prob_from_preds\<close>: \<open>preds[self.ctable.get_char_index(char)]\<close>;
  an index beyond the prediction vector raises \<open>IndexError\<close>.\<close>

definition cond_prob_from_preds :: "string \<Rightarrow> char \<Rightarrow> 'p list \<Rightarrow> error + 'p" where
  "cond_prob_from_preds chars char preds =
     (case get_char_index chars char of
        Inl e \<Rightarrow> Inl e
      | Inr i \<Rightarrow> if i < length preds then Inr (preds ! i) else Inl IndexError)"

text \<open>
  The state of a \<open>Guesser\<close> object: the counter \<open>generated\<close>, the text written to the
  output stream and, for \<open>ParallelGuesser\<close>, the list \<open>fork_points\<close>. Two more lists
  record what happened during a run and are read by no operation: \<open>emitted\<close> holds the
  arguments of every call of \<open>output_serializer.serialize\<close>, \<open>queried\<close> the prefix and
  cumulative probability of every call of \<open>conditional_probs\<close>.
\<close>

record 'p Guesser =
  generated :: nat
  ostream :: string
  fork_points :: "(string \<times> 'p) list"
  emitted :: "(string \<times> 'p) list"
  queried :: "(string \<times> 'p) list"

definition new_Guesser :: "'p Guesser" where
  "new_Guesser = \<lparr> generated = 0, ostream = [], fork_points = [], emitted = [], queried = [] \<rparr>"

text \<open>
  \<open>GuessSerializer.serialize\<close> writes \<open>'%s\t%s\n' % (password.strip(PASSWORD_END), prob)\<close>.
  How Python prints the probability is the parameter \<open>fmt\<close>.
\<close>

definition serialize_line :: "('p \<Rightarrow> string) \<Rightarrow> string \<Rightarrow> 'p \<Rightarrow> string" where
  "serialize_line fmt password prob =
     strip_end password @ [CHR 0x09] @ fmt prob @ [CHR 0x0A]"

text \<open>The two statements \<open>self.output_serializer.serialize(..)\<close>; \<open>self.generated += 1\<close>.\<close>

definition emit :: "('p \<Rightarrow> string) \<Rightarrow> string \<Rightarrow> 'p \<Rightarrow> 'p Guesser \<Rightarrow> 'p Guesser" where
  "emit fmt password prob g =
     g\<lparr> ostream := ostream g @ serialize_line fmt password prob,
        emitted := emitted g @ [(password, prob)],
        generated := generated g + 1 \<rparr>"

text \<open>
  \<open>Guesser.recur\<close> and its override \<open>ParallelGuesser.recur\<close>. The recursive call in
  \<open>Guesser.recur\<close> is \<open>self.recur\<close>, so in a \<open>ParallelGuesser\<close> it reaches the
  override: the class of the object is the first argument. The oracle
  \<open>self.conditional_probs\<close> is the parameter \<open>cp\<close>; it may raise. A run that raises
  returns \<open>Inl\<close> with the exception and the state reached.
\<close>

datatype guesser_class = PlainGuesser | ParallelGuesser

function recur ::
  "guesser_class \<Rightarrow> ('p::{times,linorder}) ModelDefaults \<Rightarrow> ('p \<Rightarrow> string) \<Rightarrow>
   (string \<Rightarrow> error + 'p list) \<Rightarrow> string \<Rightarrow> 'p \<Rightarrow> 'p Guesser \<Rightarrow>
   (error \<times> 'p Guesser) + 'p Guesser" where
  "recur cls cfg fmt cp astring prob g =
     (if cls = ParallelGuesser \<and> int (length astring) = fork_length cfg
        then Inr (g\<lparr>fork_points := fork_points g @ [(astring, prob)]\<rparr>)
      else if prob < lower_probability_threshold cfg then Inr g
      else if int (length astring) > max_len cfg then
        (if int (length (strip_end astring)) = max_len cfg
           then Inr (emit fmt astring prob g)
         else Inr g)
      else
        (case cp astring of
           Inl e \<Rightarrow> Inl (e, g\<lparr>queried := queried g @ [(astring, prob)]\<rparr>)
         | Inr prediction \<Rightarrow>
             fold (\<lambda>char acc.
                 case acc of
                   Inl x \<Rightarrow> Inl x
                 | Inr g1 \<Rightarrow>
                     (case cond_prob_from_preds (ctable_chars cfg) char prediction of
                        Inl e \<Rightarrow> Inl (e, g1)
                      | Inr p \<Rightarrow>
                          if char = PASSWORD_END \<and>
                             p * prob \<ge> lower_probability_threshold cfg
                            then Inr (emit fmt (astring @ [char]) (p * prob) g1)
                          else if char \<noteq> PASSWORD_END
                            then recur cls cfg fmt cp (astring @ [char]) (p * prob) g1
                          else Inr g1))
               (ctable_chars cfg)
               (Inr (g\<lparr>queried := queried g @ [(astring, prob)]\<rparr>))))"
  by pat_completeness auto
termination
  by (relation "measure (\<lambda>(cls, cfg, fmt, cp, astring, prob, g).
        nat (max_len cfg + 1 - int (length astring)))") auto

text \<open>The state a run ends in, whether it returned or raised.\<close>

fun final_state :: "(error \<times> 'p Guesser) + 'p Guesser \<Rightarrow> 'p Guesser" where
  "final_state (Inl (e, g)) = g"
| "final_state (Inr g) = g"

text \<open>\<open>Guesser.guess\<close>: \<open>self.recur('', 1)\<close>.\<close>

definition guess :: "('p::{times,linorder,one}) ModelDefaults \<Rightarrow> ('p \<Rightarrow> string) \<Rightarrow>
    (string \<Rightarrow> error + 'p list) \<Rightarrow> 'p Guesser \<Rightarrow> (error \<times> 'p Guesser) + 'p Guesser" where
  "guess cfg fmt cp g = recur PlainGuesser cfg fmt cp [] 1 g"


text \<open>
  The body of the loop \<open>for char in self.ctable.chars\<close> of \<open>Guesser.recur\<close>, as the
  function that \<open>recur\<close> folds over the characters: once an exception is raised the
  remaining iterations are skipped.
\<close>

definition recur_step ::
  "guesser_class \<Rightarrow> ('p::{times,linorder}) ModelDefaults \<Rightarrow> ('p \<Rightarrow> string) \<Rightarrow>
   (string \<Rightarrow> error + 'p list) \<Rightarrow> string \<Rightarrow> 'p \<Rightarrow> 'p list \<Rightarrow> char \<Rightarrow>
   (error \<times> 'p Guesser) + 'p Guesser \<Rightarrow> (error \<times> 'p Guesser) + 'p Guesser" where
  "recur_step cls cfg fmt cp astring prob prediction =
     (\<lambda>char acc.
                 case acc of
                   Inl x \<Rightarrow> Inl x
                 | Inr g1 \<Rightarrow>
                     (case cond_prob_from_preds (ctable_chars cfg) char prediction of
                        Inl e \<Rightarrow> Inl (e, g1)
                      | Inr p \<Rightarrow>
                          if char = PASSWORD_END \<and>
                             p * prob \<ge> lower_probability_threshold cfg
                            then Inr (emit fmt (astring @ [char]) (p * prob) g1)
                          else if char \<noteq> PASSWORD_END
                            then recur cls cfg fmt cp (astring @ [char]) (p * prob) g1
                          else Inr g1))"

text \<open>
  Threshold soundness of a run, read off the two recording lists: every emitted pair has a
  probability of at least the threshold, and no prefix was expanded whose cumulative
  probability is below the threshold.
\<close>

definition threshold_sound :: "('p::linorder) \<Rightarrow> 'p Guesser \<Rightarrow> bool" where
  "threshold_sound t g =
     ((\<forall>(pw, p) \<in> set (emitted g). t \<le> p) \<and> (\<forall>(a, p) \<in> set (queried g). \<not> p < t))"

text \<open>
  The output stream holds one line per emitted pair, in order, and no stripped password
  contains the end marker.
\<close>

definition line_of :: "('p \<Rightarrow> string) \<Rightarrow> string \<times> 'p \<Rightarrow> string" where
  "line_of fmt = (\<lambda>(pw, p). strip_end pw @ [CHR 0x09] @ fmt p @ [CHR 0x0A])"

definition output_wf :: "('p \<Rightarrow> string) \<Rightarrow> 'p Guesser \<Rightarrow> bool" where
  "output_wf fmt g =
     (ostream g = concat (map (line_of fmt) (emitted g)) \<and>
      (\<forall>(pw, p) \<in> set (emitted g). PASSWORD_END \<notin> set (strip_end pw)))"

text \<open>
  The end-to-end scenario of the specification: the alphabet is \<open>a\<close>, \<open>b\<close> and the end
  marker, the maximum length is 2, the threshold is 0.05 and the oracle answers the
  uniform distribution.
\<close>

definition scenario_config :: "real ModelDefaults" where
  "scenario_config =
     (defaults (1 / 20))\<lparr> char_bag := ''ab'' @ [PASSWORD_END], max_len := 2, min_len := 1,
       fork_length := 0 \<rparr>"

definition uniform_oracle :: "string \<Rightarrow> error + real list" where
  "uniform_oracle astring = Inr [1 / 3, 1 / 3, 1 / 3]"

definition plain_fmt :: "real \<Rightarrow> string" where
  "plain_fmt p = ''p''"

section \<open>The weighted trie: \<open>NodeTrie\<close>\<close>

text \<open>
  \<open>class NodeTrie\<close>: a node holds its \<open>weight\<close> and the dictionary \<open>nodes\<close> from a
  symbol to the child node. The dictionary is an association list in insertion order,
  the order in which Python iterates over it. The type of symbols is a parameter.
\<close>

datatype 'c NodeTrie = NodeTrie (weight: int) (nodes: "('c \<times> 'c NodeTrie) list")

text \<open>\<open>NodeTrie()\<close>: weight 0 and no children.\<close>

definition empty_trie :: "'c NodeTrie" where
  "empty_trie = NodeTrie 0 []"

text \<open>
  \<open>root.nodes[next_char]\<close> on a \<open>defaultdict(NodeTrie)\<close>: the child, or a fresh node
  that is stored under the key if there is none.
\<close>

definition get_node :: "('c \<times> 'c NodeTrie) list \<Rightarrow> 'c \<Rightarrow> 'c NodeTrie" where
  "get_node ns c = (case map_of ns c of None \<Rightarrow> empty_trie | Some n \<Rightarrow> n)"

text \<open>
  The loop of \<open>increment_optimized\<close> with \<open>root\<close> at the given node, and the statement
  \<open>root.weight += weight\<close> after it. An iteration adds the weight to the node it is at
  and moves to the child; the walk rebuilds the nodes on its way back.
\<close>

fun increment_loop :: "'c NodeTrie \<Rightarrow> 'c list \<Rightarrow> int \<Rightarrow> 'c NodeTrie" where
  "increment_loop (NodeTrie w ns) [] wt = NodeTrie (w + wt) ns"
| "increment_loop (NodeTrie w ns) (next_char # inc_str) wt =
     NodeTrie (w + wt)
       (AList.update next_char (increment_loop (get_node ns next_char) inc_str wt) ns)"

text \<open>
  \<open>NodeTrie.increment_optimized\<close>: the statement \<open>root.weight += weight\<close> before the
  loop, then the loop. \<open>NodeTrie.increment\<close> calls it on \<open>self\<close>.
\<close>

definition increment_optimized :: "'c NodeTrie \<Rightarrow> 'c list \<Rightarrow> int \<Rightarrow> 'c NodeTrie" where
  "increment_optimized anode aword wt =
     increment_loop (NodeTrie (weight anode + wt) (nodes anode)) aword wt"

definition increment :: "'c NodeTrie \<Rightarrow> 'c list \<Rightarrow> int \<Rightarrow> 'c NodeTrie" where
  "increment self aword wt = increment_optimized self aword wt"

text \<open>A sequence of calls of \<open>increment\<close>, starting from a new trie.\<close>

definition increment_all :: "'c NodeTrie \<Rightarrow> ('c list \<times> int) list \<Rightarrow> 'c NodeTrie" where
  "increment_all t incs = fold (\<lambda>kw t. increment t (fst kw) (snd kw)) incs t"

definition trie_of :: "('c list \<times> int) list \<Rightarrow> 'c NodeTrie" where
  "trie_of incs = increment_all empty_trie incs"

text \<open>
  \<open>NodeTrie.random_iterate\<close>: the node's own entry unless the prefix is empty, then
  the entries of the children in the order of the dictionary.
\<close>

fun random_iterate :: "'c NodeTrie \<Rightarrow> 'c list \<Rightarrow> ('c list \<times> int) list" where
  "random_iterate (NodeTrie w ns) cur =
     (if cur \<noteq> [] then [(cur, w)] else []) @
     concat (map (\<lambda>kn. random_iterate (snd kn) (cur @ [fst kn])) ns)"

text \<open>\<open>NodeTrie.iterate\<close> for the serializer type \<open>'reg'\<close>: \<open>self.random_iterate()\<close>.\<close>

definition iterate :: "'c NodeTrie \<Rightarrow> ('c list \<times> int) list" where
  "iterate t = random_iterate t []"

text \<open>The node that a path of symbols leads to, and the weight found there.\<close>

fun lookup :: "'c NodeTrie \<Rightarrow> 'c list \<Rightarrow> 'c NodeTrie option" where
  "lookup t [] = Some t"
| "lookup (NodeTrie w ns) (c # cs) =
     (case map_of ns c of None \<Rightarrow> None | Some n \<Rightarrow> lookup n cs)"

definition weight_at :: "'c NodeTrie \<Rightarrow> 'c list \<Rightarrow> int" where
  "weight_at t p = (case lookup t p of None \<Rightarrow> 0 | Some n \<Rightarrow> weight n)"

text \<open>The sum of the weights of the increments whose key has the prefix \<open>p\<close>.\<close>

definition prefix_weight :: "('c list \<times> int) list \<Rightarrow> 'c list \<Rightarrow> int" where
  "prefix_weight incs p = sum_list (map snd (filter (\<lambda>kw. prefix p (fst kw)) incs))"

text \<open>
  Two notions for the proofs about tries. \<open>paths\<close> lists the paths of all nodes, the root
  first and the children in the order of the dictionaries, as \<open>random_iterate\<close> visits
  them. \<open>wf_trie\<close> says that no dictionary holds a key twice, which is what makes the
  association lists dictionaries.
\<close>

fun paths :: "'c NodeTrie \<Rightarrow> 'c list list" where
  "paths (NodeTrie w ns) = [] # concat (map (\<lambda>kn. map ((#) (fst kn)) (paths (snd kn))) ns)"

fun wf_trie :: "'c NodeTrie \<Rightarrow> bool" where
  "wf_trie (NodeTrie w ns) = (distinct (map fst ns) \<and> (\<forall>kn \<in> set ns. wf_trie (snd kn)))"

section \<open>\<open>Filterer.pwd_is_valid\<close> and \<open>Guesser.relevel_prediction\<close>\<close>

text \<open>
  \<open>class Filterer\<close>: the bounds and the alphabet copied from the configuration, and the
  statistics that \<open>pwd_is_valid\<close> updates.
\<close>

record Filterer =
  filtered_out :: nat
  total :: nat
  total_characters :: nat
  frequencies :: "char \<Rightarrow> nat"
  longest_pwd :: nat
  f_char_bag :: string
  f_max_len :: int
  f_min_len :: int

definition new_Filterer :: "('p, 'z) ModelDefaults_scheme \<Rightarrow> Filterer" where
  "new_Filterer config =
     \<lparr> filtered_out = 0, total = 0, total_characters = 0, frequencies = (\<lambda>c. 0),
       longest_pwd = 0, f_char_bag = char_bag config, f_max_len = max_len config,
       f_min_len = min_len config \<rparr>"

text \<open>The value \<open>answer\<close> that \<open>pwd_is_valid\<close> computes and returns.\<close>

definition pwd_answer :: "Filterer \<Rightarrow> string \<Rightarrow> bool" where
  "pwd_answer f pwd0 =
     (let pwd = strip_end pwd0
      in list_all (\<lambda>c. c \<in> set (f_char_bag f)) pwd \<and>
         int (length pwd) \<le> f_max_len f \<and> int (length pwd) \<ge> f_min_len f)"

text \<open>\<open>Filterer.pwd_is_valid\<close>: the answer and the filterer with its statistics updated.\<close>

definition pwd_is_valid :: "Filterer \<Rightarrow> string \<Rightarrow> bool \<times> Filterer" where
  "pwd_is_valid f pwd0 =
     (let pwd = strip_end pwd0;
          answer = pwd_answer f pwd0;
          f1 = (if answer
                then f\<lparr> total_characters := total_characters f + length pwd,
                        frequencies := fold (\<lambda>c fr. fr(c := fr c + 1)) pwd (frequencies f) \<rparr>
                else f\<lparr> filtered_out := filtered_out f + 1 \<rparr>)
      in (answer, f1\<lparr> total := total f1 + 1,
                      longest_pwd := max (longest_pwd f1) (length pwd) \<rparr>))"

text \<open>
  A prediction vector after \<open>relevel_prediction\<close>. The entries are numpy floating-point
  numbers; they are modelled as real numbers, so rounding is not modelled. Dividing the
  entries by a sum that is zero raises nothing in numpy and leaves \<open>nan\<close> (or an
  infinity) in every entry: that outcome is \<open>NotFinite\<close>.
\<close>

datatype prediction = Probs "real list" | NotFinite

text \<open>\<open>preds[i] = v\<close>, with the \<open>IndexError\<close> of an index beyond the vector.\<close>

definition set_pred :: "real list \<Rightarrow> nat \<Rightarrow> real \<Rightarrow> error + real list" where
  "set_pred preds i v = (if i < length preds then Inr (preds[i := v]) else Inl IndexError)"

text \<open>
  The loop \<open>for c in self.ctable.chars: preds[index(c)] = 1 if c == PASSWORD_END else 0\<close>.
\<close>

fun force_end :: "string \<Rightarrow> string \<Rightarrow> real list \<Rightarrow> error + real list" where
  "force_end chars [] preds = Inr preds"
| "force_end chars (c # cs) preds =
     (case get_char_index chars c of
        Inl e \<Rightarrow> Inl e
      | Inr i \<Rightarrow>
          (case set_pred preds i (if c = PASSWORD_END then 1 else 0) of
             Inl e \<Rightarrow> Inl e
           | Inr preds1 \<Rightarrow> force_end chars cs preds1))"

text \<open>The last three lines of \<open>relevel_prediction\<close>: divide every entry by the sum.\<close>

definition renormalize :: "real list \<Rightarrow> prediction" where
  "renormalize preds =
     (let sum_per = sum_list preds
      in if sum_per = 0 then NotFinite else Probs (map (\<lambda>v. v / sum_per) preds))"

text \<open>
  \<open>Guesser.relevel_prediction\<close>. The vector is updated in place in the source; here
  the new vector is returned, with the filterer that \<open>pwd_is_valid\<close> updated.
\<close>

definition relevel_prediction ::
  "('p, 'z) ModelDefaults_scheme \<Rightarrow> Filterer \<Rightarrow> real list \<Rightarrow> string \<Rightarrow>
   (error + prediction) \<times> Filterer" where
  "relevel_prediction config f preds astring =
     (let (valid, f1) = pwd_is_valid f astring;
          chars = ctable_chars config;
          forced =
            (if \<not> valid then
               (case get_char_index chars PASSWORD_END of
                  Inl e \<Rightarrow> Inl e
                | Inr i \<Rightarrow> set_pred preds i 0)
             else if int (length astring) = max_len config then force_end chars chars preds
             else Inr preds)
      in (case forced of Inl e \<Rightarrow> Inl e | Inr preds1 \<Rightarrow> Inr (renormalize preds1), f1))"

text \<open>The vector with 1 at the end marker and 0 elsewhere.\<close>

definition end_only :: "string \<Rightarrow> real list" where
  "end_only chars = map (\<lambda>c. if c = PASSWORD_END then 1 else 0) chars"

section \<open>The binary codec: \<open>struct\<close> and files\<close>

type_synonym byte = "8 word"

text \<open>
  The little-endian bytes of an unsigned integer, and the integer of little-endian bytes:
  the formats \<open><B\<close>, \<open><H\<close> and \<open><Q\<close> of Python's \<open>struct\<close> with 1, 2 and 8 bytes.
\<close>

fun le_bytes :: "nat \<Rightarrow> int \<Rightarrow> byte list" where
  "le_bytes 0 n = []"
| "le_bytes (Suc k) n = word_of_int n # le_bytes k (n div 256)"

fun le_int :: "byte list \<Rightarrow> int" where
  "le_int [] = 0"
| "le_int (b # bs) = uint b + 256 * le_int bs"

text \<open>\<open>struct.pack\<close> of one unsigned field of \<open>k\<close> bytes raises \<open>struct.error\<close> for a
  number out of range; \<open>struct.unpack\<close> raises it for a buffer of the wrong size.\<close>

definition pack_uint :: "nat \<Rightarrow> int \<Rightarrow> error + byte list" where
  "pack_uint k n = (if 0 \<le> n \<and> n < 256 ^ k then Inr (le_bytes k n) else Inl StructError)"

definition unpack_uint :: "nat \<Rightarrow> byte list \<Rightarrow> error + int" where
  "unpack_uint k bs = (if length bs = k then Inr (le_int bs) else Inl StructError)"

text \<open>\<open>struct.pack('<QQ', a, b)\<close> and \<open>struct.unpack('<QQ', buffer)\<close>.\<close>

definition pack_QQ :: "int \<Rightarrow> int \<Rightarrow> error + byte list" where
  "pack_QQ a b =
     (case pack_uint 8 a of
        Inl e \<Rightarrow> Inl e
      | Inr x \<Rightarrow> (case pack_uint 8 b of Inl e \<Rightarrow> Inl e | Inr y \<Rightarrow> Inr (x @ y)))"

definition unpack_QQ :: "byte list \<Rightarrow> error + int \<times> int" where
  "unpack_QQ bs =
     (if length bs = 16 then Inr (le_int (take 8 bs), le_int (drop 8 bs)) else Inl StructError)"

text \<open>\<open>_fmt_size = struct.calcsize('<QQ')\<close>.\<close>

definition fmt_size :: nat where
  "fmt_size = 16"

text \<open>
  A file opened for reading: its bytes and the position of the handle. \<open>read\<close> returns at
  most \<open>n\<close> bytes, fewer at the end of the file; \<open>seek\<close> may move beyond the end.
\<close>

record rfile =
  data :: "byte list"
  pos :: nat

definition open_file :: "byte list \<Rightarrow> rfile" where
  "open_file bs = \<lparr> data = bs, pos = 0 \<rparr>"

definition read :: "rfile \<Rightarrow> nat \<Rightarrow> byte list \<times> rfile" where
  "read f n = (let bs = take n (drop (pos f) (data f)) in (bs, f\<lparr>pos := pos f + length bs\<rparr>))"

definition seek :: "rfile \<Rightarrow> nat \<Rightarrow> rfile" where
  "seek f p = f\<lparr>pos := p\<rparr>"

definition tell :: "rfile \<Rightarrow> nat" where
  "tell f = pos f"

section \<open>The binary codec: \<open>BinaryTrieSerializer\<close>\<close>

text \<open>
  The methods \<open>write_value\<close> and \<open>read_value\<close> are abstract in \<open>BinaryTrieSerializer\<close>,
  and the text encoding is configured. They are parameters here:
  \<^item> \<open>enc\<close> is \<open>astring.encode(self.encoding)\<close> and \<open>dec\<close> is \<open>.decode(self.encoding)\<close>,
    with \<open>None\<close> for \<open>UnicodeEncodeError\<close> and \<open>UnicodeDecodeError\<close>;
  \<^item> \<open>wv\<close> is \<open>write_value\<close>: the bytes it writes for a value, or the exception;
  \<^item> \<open>rv\<close> is \<open>read_value\<close>: it gets the bytes of the file from the position of the handle
    on and returns the value and the number of bytes it read, or the exception.
\<close>

type_synonym 'c encoder = "'c list \<Rightarrow> byte list option"
type_synonym 'c decoder = "byte list \<Rightarrow> 'c list option"
type_synonym 'v value_writer = "'v \<Rightarrow> error + byte list"
type_synonym 'v value_reader = "byte list \<Rightarrow> error + 'v \<times> nat"

text \<open>\<open>write_string\<close> and \<open>write_record\<close>: the bytes they append to the file.\<close>

definition write_string :: "'c encoder \<Rightarrow> 'c list \<Rightarrow> error + byte list" where
  "write_string enc astring =
     (case enc astring of
        None \<Rightarrow> Inl UnicodeEncodeError
      | Some string_bytes \<Rightarrow>
          (case pack_uint 1 (int (length string_bytes)) of
             Inl e \<Rightarrow> Inl e
           | Inr len_byte \<Rightarrow> Inr (len_byte @ string_bytes)))"

definition write_record ::
  "'c encoder \<Rightarrow> 'v value_writer \<Rightarrow> 'c list \<Rightarrow> 'v \<Rightarrow> error + byte list" where
  "write_record enc wv pwd val =
     (case write_string enc pwd of
        Inl e \<Rightarrow> Inl e
      | Inr sb \<Rightarrow> (case wv val of Inl e \<Rightarrow> Inl e | Inr vb \<Rightarrow> Inr (sb @ vb)))"

text \<open>
  \<open>read_string\<close>: \<open>None\<close> when no byte is left, else the length byte and the string. A
  string cut short by the end of the file is decoded as it is.
\<close>

definition read_string :: "'c decoder \<Rightarrow> rfile \<Rightarrow> error + 'c list option \<times> rfile" where
  "read_string dec afile =
     (let (byte_string, f1) = read afile 1
      in if length byte_string = 0 then Inr (None, f1)
         else
           (case unpack_uint 1 byte_string of
              Inl e \<Rightarrow> Inl e
            | Inr strlen \<Rightarrow>
                (let (raw, f2) = read f1 (nat strlen)
                 in case dec raw of
                      None \<Rightarrow> Inl UnicodeDecodeError
                    | Some s \<Rightarrow> Inr (Some s, f2))))"

definition read_record ::
  "'c decoder \<Rightarrow> 'v value_reader \<Rightarrow> rfile \<Rightarrow> error + ('c list \<times> 'v) option \<times> rfile" where
  "read_record dec rv afile =
     (case read_string dec afile of
        Inl e \<Rightarrow> Inl e
      | Inr (None, f1) \<Rightarrow> Inr (None, f1)
      | Inr (Some astr, f1) \<Rightarrow>
          (case rv (drop (pos f1) (data f1)) of
             Inl e \<Rightarrow> Inl e
           | Inr (v, n) \<Rightarrow> Inr (Some (astr, v), f1\<lparr>pos := pos f1 + n\<rparr>)))"

text \<open>
  The generators \<open>deserialize\<close>, \<open>read_from_pos\<close> and \<open>random_access\<close> are consumed to their
  end: the result is the list of the items yielded and how the generator ended. It
  ended because its loop was exhausted (\<open>Exhausted\<close>), by the \<open>break\<close> of \<open>deserialize\<close>
  at the given position when \<open>read_record\<close> returned \<open>None\<close> (\<open>EndOfFile\<close>), or
  because an exception was raised (\<open>Raised\<close>).
\<close>

datatype ending = Exhausted | EndOfFile nat | Raised error

definition yield :: "'a \<Rightarrow> 'a list \<times> ending \<Rightarrow> 'a list \<times> ending" where
  "yield x r = (x # fst r, snd r)"

text \<open>The loop \<open>for _ in range(num_records)\<close> of \<open>deserialize\<close>.\<close>

fun deserialize_loop ::
  "'c decoder \<Rightarrow> 'v value_reader \<Rightarrow> nat \<Rightarrow> rfile \<Rightarrow> ('c list \<times> 'v) list \<times> ending" where
  "deserialize_loop dec rv 0 afile = ([], Exhausted)"
| "deserialize_loop dec rv (Suc n) afile =
     (case read_record dec rv afile of
        Inl e \<Rightarrow> ([], Raised e)
      | Inr (None, f1) \<Rightarrow> ([], EndOfFile (tell f1))
      | Inr (Some answer, f1) \<Rightarrow> yield answer (deserialize_loop dec rv n f1))"

text \<open>\<open>BinaryTrieSerializer.deserialize\<close> on the bytes of the file.\<close>

definition deserialize ::
  "'c decoder \<Rightarrow> 'v value_reader \<Rightarrow> byte list \<Rightarrow> ('c list \<times> 'v) list \<times> ending" where
  "deserialize dec rv file =
     (let (header, f1) = read (open_file file) fmt_size
      in case unpack_QQ header of
           Inl e \<Rightarrow> ([], Raised e)
         | Inr (num_records, toc_start) \<Rightarrow> deserialize_loop dec rv (nat num_records) f1)"

text \<open>
  The loop of \<open>read_toc\<close>: 16-byte chunks until a read returns nothing, each stored in
  the dictionary \<open>toc\<close> (an association list in insertion order).
\<close>

function read_toc_loop :: "rfile \<Rightarrow> (int \<times> int) list \<Rightarrow> error + (int \<times> int) list" where
  "read_toc_loop afile toc =
     (let (chunk, f1) = read afile fmt_size
      in if length chunk = 0 then Inr toc
         else
           (case unpack_QQ chunk of
              Inl e \<Rightarrow> Inl e
            | Inr (key, toc_pos) \<Rightarrow> read_toc_loop f1 (AList.update key toc_pos toc)))"
  by pat_completeness auto
termination
  by (relation "measure (\<lambda>(afile, toc). length (data afile) - pos afile)")
     (auto simp: read_def Let_def)

definition read_toc :: "rfile \<Rightarrow> error + (int \<times> int) list \<times> int" where
  "read_toc afile =
     (let (header, f1) = read afile fmt_size
      in case unpack_QQ header of
           Inl e \<Rightarrow> Inl e
         | Inr (num_records, toc_start) \<Rightarrow>
             (case read_toc_loop (seek f1 (nat toc_start)) [] of
                Inl e \<Rightarrow> Inl e
              | Inr toc \<Rightarrow> Inr (toc, toc_start)))"






text \<open>
  The state of \<open>do_serialize\<close> while it writes: the bytes of the file so far
  (\<open>afile.tell()\<close> is their number), the counter \<open>records\<close> and the dictionary
  \<open>table_of_contents\<close>.
\<close>

record wstate =
  content :: "byte list"
  records :: int
  table_of_contents :: "(int \<times> int) list"

text \<open>The loop \<open>for item in trie.iterate(self.serializer_type)\<close>; \<open>records % 0\<close> raises.\<close>

fun serialize_loop ::
  "'c encoder \<Rightarrow> 'v value_writer \<Rightarrow> int \<Rightarrow> ('c list \<times> 'v) list \<Rightarrow> wstate \<Rightarrow> error + wstate" where
  "serialize_loop enc wv toc_chunk [] st = Inr st"
| "serialize_loop enc wv toc_chunk (item # items) st =
     (case write_record enc wv (fst item) (snd item) of
        Inl e \<Rightarrow> Inl e
      | Inr bs \<Rightarrow>
          (let st1 = st\<lparr>content := content st @ bs, records := records st + 1\<rparr>
           in if toc_chunk = 0 then Inl ZeroDivisionError
              else serialize_loop enc wv toc_chunk items
                     (if records st1 mod toc_chunk = 0
                      then st1\<lparr>table_of_contents :=
                             AList.update (records st1) (int (length (content st1)))
                               (table_of_contents st1)\<rparr>
                      else st1)))"

text \<open>The loop \<open>for key in sorted(table_of_contents.keys())\<close>, over the entries by key.\<close>

fun write_toc :: "(int \<times> int) list \<Rightarrow> error + byte list" where
  "write_toc [] = Inr []"
| "write_toc (kv # rest) =
     (case pack_QQ (fst kv) (snd kv) of
        Inl e \<Rightarrow> Inl e
      | Inr bs \<Rightarrow> (case write_toc rest of Inl e \<Rightarrow> Inl e | Inr bs1 \<Rightarrow> Inr (bs @ bs1)))"

text \<open>
  \<open>BinaryTrieSerializer.do_serialize\<close> on the items that \<open>trie.iterate\<close> yields: the
  bytes of the file, or the exception. The second \<open>with\<close> block overwrites the first 16
  bytes with the header.
\<close>

definition do_serialize ::
  "'c encoder \<Rightarrow> 'v value_writer \<Rightarrow> int \<Rightarrow> ('c list \<times> 'v) list \<Rightarrow> error + byte list" where
  "do_serialize enc wv toc_chunk items =
     (case pack_QQ 0 0 of
        Inl e \<Rightarrow> Inl e
      | Inr header0 \<Rightarrow>
          (case serialize_loop enc wv toc_chunk items
                  \<lparr>content = header0, records = 0, table_of_contents = []\<rparr> of
             Inl e \<Rightarrow> Inl e
           | Inr st \<Rightarrow>
               (let toc_start = int (length (content st))
                in case write_toc (sort_key fst (table_of_contents st)) of
                     Inl e \<Rightarrow> Inl e
                   | Inr toc_bytes \<Rightarrow>
                       if \<not> toc_start > 0 then Inl AssertionError
                       else
                         (case pack_QQ (records st) toc_start of
                            Inl e \<Rightarrow> Inl e
                          | Inr header \<Rightarrow>
                              Inr (header @ drop (length header) (content st @ toc_bytes))))))"

section \<open>The binary codec: \<open>NodeTrieSerializer\<close>\<close>

text \<open>\<open>write_value\<close>: \<open>struct.pack('<Q', weight)\<close>. \<open>read_value\<close>:
  \<open>struct.unpack_from('<Q', afile.read(8))[0]\<close>, which raises for fewer than 8 bytes.\<close>

definition node_write_value :: "int value_writer" where
  "node_write_value w = pack_uint 8 w"

definition node_read_value :: "int value_reader" where
  "node_read_value rest =
     (let chunk = take 8 rest
      in if length chunk < 8 then Inl StructError else Inr (le_int (take 8 chunk), length chunk))"

text \<open>
  What the proofs ask of the parameters: the text that \<open>enc\<close> encodes is what \<open>dec\<close>
  decodes from the bytes, and \<open>rv\<close> reads back the value and the number of bytes that
  \<open>wv\<close> wrote, whatever follows them in the file.
\<close>

definition text_codec :: "'c encoder \<Rightarrow> 'c decoder \<Rightarrow> bool" where
  "text_codec enc dec = (\<forall>s bs. enc s = Some bs \<longrightarrow> dec bs = Some s)"

definition value_codec :: "'v value_writer \<Rightarrow> 'v value_reader \<Rightarrow> bool" where
  "value_codec wv rv = (\<forall>v bs rest. wv v = Inr bs \<longrightarrow> rv (bs @ rest) = Inr (v, length bs))"

text \<open>An encoding for examples: one byte per character (Latin-1).\<close>

definition latin1_encode :: "char encoder" where
  "latin1_encode s = Some (map (\<lambda>c. word_of_nat (of_char c)) s)"

definition latin1_decode :: "char decoder" where
  "latin1_decode bs = Some (map (\<lambda>b. char_of (unat b)) bs)"

text \<open>
  The entries that the loop of \<open>do_serialize\<close> adds to the table of contents when it
  writes the given blocks of bytes, one per record, after \<open>r\<close> records and \<open>off\<close> bytes.
\<close>

fun checkpoints :: "int \<Rightarrow> int \<Rightarrow> nat \<Rightarrow> byte list list \<Rightarrow> (int \<times> int) list" where
  "checkpoints toc_chunk r off [] = []"
| "checkpoints toc_chunk r off (bs # bss) =
     (if (r + 1) mod toc_chunk = 0 then [(r + 1, int (off + length bs))] else []) @
     checkpoints toc_chunk (r + 1) (off + length bs) bss"

text \<open>The items and the blocks of bytes that \<open>write_record\<close> writes for them.\<close>

definition written ::
  "'c encoder \<Rightarrow> 'v value_writer \<Rightarrow> ('c list \<times> 'v) list \<Rightarrow> byte list list \<Rightarrow> bool" where
  "written enc wv items bss =
     list_all2 (\<lambda>item bs. write_record enc wv (fst item) (snd item) = Inr bs) items bss"


definition toc_example_file :: "byte list" where
  "toc_example_file =
     [5, 0, 0, 0, 0, 0, 0, 0, 70, 0, 0, 0, 0, 0, 0, 0,
      1, 97, 3, 0, 0, 0, 0, 0, 0, 0,
      2, 97, 98, 1, 0, 0, 0, 0, 0, 0, 0,
      3, 97, 98, 99, 1, 0, 0, 0, 0, 0, 0, 0,
      1, 98, 2, 0, 0, 0, 0, 0, 0, 0,
      2, 98, 99, 2, 0, 0, 0, 0, 0, 0, 0,
      2, 0, 0, 0, 0, 0, 0, 0, 37, 0, 0, 0, 0, 0, 0, 0,
      4, 0, 0, 0, 0, 0, 0, 0, 59, 0, 0, 0, 0, 0, 0, 0]"

section \<open>The binary codec: \<open>TrieFuzzySerializer\<close>\<close>






text \<open>
  The default encoding, \<open>trie_serializer_encoding = 'utf8'\<close>, on strings of code points:
  one to four bytes for a code point, none for a surrogate. The decoder is strict, as
  Python's is: it refuses a sequence that is cut, a byte that cannot start or continue a
  sequence, an overlong form, a surrogate and a code point beyond \<open>U+10FFFF\<close>.
\<close>

definition utf8_bytes :: "int \<Rightarrow> byte list option" where
  "utf8_bytes cp =
     (if cp < 0 then None
      else if cp < 0x80 then Some [word_of_int cp]
      else if cp < 0x800 then
        Some [word_of_int (0xC0 + cp div 64), word_of_int (0x80 + cp mod 64)]
      else if 0xD800 \<le> cp \<and> cp < 0xE000 then None
      else if cp < 0x10000 then
        Some [word_of_int (0xE0 + cp div 4096), word_of_int (0x80 + cp div 64 mod 64),
              word_of_int (0x80 + cp mod 64)]
      else if cp < 0x110000 then
        Some [word_of_int (0xF0 + cp div 262144), word_of_int (0x80 + cp div 4096 mod 64),
              word_of_int (0x80 + cp div 64 mod 64), word_of_int (0x80 + cp mod 64)]
      else None)"

fun utf8_encode :: "int encoder" where
  "utf8_encode [] = Some []"
| "utf8_encode (cp # s) =
     (case utf8_bytes cp of
        None \<Rightarrow> None
      | Some b \<Rightarrow> (case utf8_encode s of None \<Rightarrow> None | Some bs \<Rightarrow> Some (b @ bs)))"

definition continuation :: "int \<Rightarrow> bool" where
  "continuation b = (0x80 \<le> b \<and> b < 0xC0)"

text \<open>The first code point of a sequence of byte values and the number of its bytes.\<close>

definition utf8_first :: "int list \<Rightarrow> (int \<times> nat) option" where
  "utf8_first bs =
     (case bs of
        [] \<Rightarrow> None
      | b # r \<Rightarrow>
          if b < 0x80 then Some (b, 1)
          else if 0xC2 \<le> b \<and> b < 0xE0 then
            (if 2 \<le> length bs \<and> continuation (bs ! 1)
               then Some ((b - 0xC0) * 64 + (bs ! 1 - 0x80), 2) else None)
          else if 0xE0 \<le> b \<and> b < 0xF0 then
            (if 3 \<le> length bs \<and> continuation (bs ! 1) \<and> continuation (bs ! 2) \<and>
                0x800 \<le> (b - 0xE0) * 4096 + (bs ! 1 - 0x80) * 64 + (bs ! 2 - 0x80) \<and>
                \<not> (0xD800 \<le> (b - 0xE0) * 4096 + (bs ! 1 - 0x80) * 64 + (bs ! 2 - 0x80) \<and>
                   (b - 0xE0) * 4096 + (bs ! 1 - 0x80) * 64 + (bs ! 2 - 0x80) < 0xE000)
               then Some ((b - 0xE0) * 4096 + (bs ! 1 - 0x80) * 64 + (bs ! 2 - 0x80), 3)
             else None)
          else if 0xF0 \<le> b \<and> b < 0xF5 then
            (if 4 \<le> length bs \<and> continuation (bs ! 1) \<and> continuation (bs ! 2) \<and>
                continuation (bs ! 3) \<and>
                0x10000 \<le> (b - 0xF0) * 262144 + (bs ! 1 - 0x80) * 4096 + (bs ! 2 - 0x80) * 64 +
                            (bs ! 3 - 0x80) \<and>
                (b - 0xF0) * 262144 + (bs ! 1 - 0x80) * 4096 + (bs ! 2 - 0x80) * 64 +
                  (bs ! 3 - 0x80) < 0x110000
               then Some ((b - 0xF0) * 262144 + (bs ! 1 - 0x80) * 4096 + (bs ! 2 - 0x80) * 64 +
                          (bs ! 3 - 0x80), 4)
             else None)
          else None)"

function utf8_decode_values :: "int list \<Rightarrow> int list option" where
  "utf8_decode_values bs =
     (if bs = [] then Some []
      else
        (case utf8_first bs of
           None \<Rightarrow> None
         | Some (cp, n) \<Rightarrow>
             if n = 0 then None
             else (case utf8_decode_values (drop n bs) of
                     None \<Rightarrow> None
                   | Some s \<Rightarrow> Some (cp # s))))"
  by pat_completeness auto
termination
  by (relation "measure length") auto

definition utf8_decode :: "int decoder" where
  "utf8_decode bs = utf8_decode_values (map uint bs)"



section \<open>The partitioned trie: \<open>DiskBackedTrie\<close>\<close>

text \<open>The slices \<open>aword[:n]\<close> and \<open>aword[n:]\<close>; a negative \<open>n\<close> counts from the end.\<close>

definition slice_to :: "int \<Rightarrow> 'a list \<Rightarrow> 'a list" where
  "slice_to n xs = (if 0 \<le> n then take (nat n) xs else take (length xs - nat (- n)) xs)"

definition slice_from :: "int \<Rightarrow> 'a list \<Rightarrow> 'a list" where
  "slice_from n xs = (if 0 \<le> n then drop (nat n) xs else drop (length xs - nat (- n)) xs)"

text \<open>
  \<open>class DiskBackedTrie\<close>. Besides the attributes of the object the state holds what the
  object writes outside itself: \<open>storage\<close> is the intermediate storage, the serialized
  partition under the file name that \<open>sanitize\<close> computes, which is an index into
  \<open>keys\<close>; \<open>intermediate_info\<close> is what \<open>finish\<close> saves with
  \<open>set_intermediate_info\<close>. The list \<open>serialized\<close> records the file name of every
  call of \<open>serialize\<close> and is read by no operation.

  The serializer that \<open>make_serializer\<close> builds is a pair of parameters: \<open>ser\<close> gives what
  \<open>serialize\<close> stores for a trie, or the exception, and \<open>deser\<close> gives what iterating
  \<open>deserialize()\<close> yields from it.
\<close>

record ('c, 's) DiskBackedTrie =
  current_node :: "'c NodeTrie option"
  current_branch_key :: "'c list option"
  weights :: "'c NodeTrie"
  keys :: "'c list list"
  trie_fork_length :: int
  storage :: "(nat \<times> 's) list"
  serialized :: "nat list"
  intermediate_info :: "('c list list \<times> 'c NodeTrie) option"

definition new_DiskBackedTrie :: "int \<Rightarrow> ('c, 's) DiskBackedTrie" where
  "new_DiskBackedTrie fl =
     \<lparr> current_node = None, current_branch_key = None, weights = empty_trie, keys = [],
       trie_fork_length = fl, storage = [], serialized = [], intermediate_info = None \<rparr>"

text \<open>\<open>sanitize\<close>: \<open>assert prefix in self.keys\<close>, then the first index of the prefix.\<close>

definition sanitize :: "('c, 's) DiskBackedTrie \<Rightarrow> 'c list \<Rightarrow> error + nat" where
  "sanitize d pfx =
     (case index_of (keys d) pfx of None \<Rightarrow> Inl AssertionError | Some i \<Rightarrow> Inr i)"

definition close_branch ::
  "('c NodeTrie \<Rightarrow> error + 's) \<Rightarrow> ('c, 's) DiskBackedTrie \<Rightarrow> error + ('c, 's) DiskBackedTrie" where
  "close_branch ser d =
     (case current_branch_key d of
        None \<Rightarrow> Inr (d\<lparr>current_node := None, current_branch_key := None\<rparr>)
      | Some key \<Rightarrow>
          (case current_node d of
             None \<Rightarrow> Inl AssertionError
           | Some node \<Rightarrow>
               (case sanitize d key of
                  Inl e \<Rightarrow> Inl e
                | Inr name \<Rightarrow>
                    (case ser node of
                       Inl e \<Rightarrow> Inl e
                     | Inr s \<Rightarrow>
                         Inr (d\<lparr>storage := AList.update name s (storage d),
                                 serialized := serialized d @ [name],
                                 current_node := None, current_branch_key := None\<rparr>)))))"

definition open_new_branch ::
  "('c NodeTrie \<Rightarrow> error + 's) \<Rightarrow> ('c, 's) DiskBackedTrie \<Rightarrow> 'c list \<Rightarrow>
   error + ('c, 's) DiskBackedTrie" where
  "open_new_branch ser d key =
     (case close_branch ser d of
        Inl e \<Rightarrow> Inl e
      | Inr d1 \<Rightarrow>
          Inr (d1\<lparr>current_node := Some empty_trie, current_branch_key := Some key,
                   keys := keys d1 @ [key]\<rparr>))"

text \<open>\<open>DiskBackedTrie.increment\<close>.\<close>

definition disk_increment ::
  "('c NodeTrie \<Rightarrow> error + 's) \<Rightarrow> ('c, 's) DiskBackedTrie \<Rightarrow> 'c list \<Rightarrow> int \<Rightarrow>
   error + ('c, 's) DiskBackedTrie" where
  "disk_increment ser d aword wt =
     (let start = slice_to (trie_fork_length d) aword;
          end = slice_from (trie_fork_length d) aword
      in case (if Some start \<noteq> current_branch_key d then open_new_branch ser d start
               else Inr d) of
           Inl e \<Rightarrow> Inl e
         | Inr d1 \<Rightarrow>
             (case current_node d1 of
                None \<Rightarrow> Inl AttributeError
              | Some node \<Rightarrow>
                  Inr (d1\<lparr>weights := increment (weights d1) start wt,
                           current_node := Some (increment node end wt)\<rparr>)))"

text \<open>A sequence of calls of \<open>increment\<close>; it stops at the first exception.\<close>

fun disk_increment_all ::
  "('c NodeTrie \<Rightarrow> error + 's) \<Rightarrow> ('c, 's) DiskBackedTrie \<Rightarrow> ('c list \<times> int) list \<Rightarrow>
   error + ('c, 's) DiskBackedTrie" where
  "disk_increment_all ser d [] = Inr d"
| "disk_increment_all ser d (kw # incs) =
     (case disk_increment ser d (fst kw) (snd kw) of
        Inl e \<Rightarrow> Inl e
      | Inr d1 \<Rightarrow> disk_increment_all ser d1 incs)"

text \<open>\<open>DiskBackedTrie.finish\<close>.\<close>

definition finish ::
  "('c NodeTrie \<Rightarrow> error + 's) \<Rightarrow> ('c, 's) DiskBackedTrie \<Rightarrow> error + ('c, 's) DiskBackedTrie" where
  "finish ser d =
     (if current_branch_key d \<noteq> None then
        (case close_branch ser d of
           Inl e \<Rightarrow> Inl e
         | Inr d1 \<Rightarrow> Inr (d1\<lparr>intermediate_info := Some (keys d1, weights d1)\<rparr>))
      else Inr d)"

text \<open>
  \<open>iterate_subtrees\<close>: for every key the serialized partition under the name of the key
  is read and every entry is yielded with the key put before its prefix. A missing file
  raises.
\<close>

fun iterate_subtrees ::
  "('s \<Rightarrow> ('c list \<times> int) list \<times> ending) \<Rightarrow> ('c, 's) DiskBackedTrie \<Rightarrow> 'c list list \<Rightarrow>
   ('c list \<times> int) list \<times> ending" where
  "iterate_subtrees deser d [] = ([], Exhausted)"
| "iterate_subtrees deser d (key # rest) =
     (case sanitize d key of
        Inl e \<Rightarrow> ([], Raised e)
      | Inr name \<Rightarrow>
          (case map_of (storage d) name of
             None \<Rightarrow> ([], Raised KeyError)
           | Some s \<Rightarrow>
               (let sub = deser s;
                    items = map (\<lambda>subitem. (key @ fst subitem, snd subitem)) (fst sub)
                in case snd sub of
                     Raised e \<Rightarrow> (items, Raised e)
                   | _ \<Rightarrow>
                       (let r = iterate_subtrees deser d rest in (items @ fst r, snd r)))))"

text \<open>\<open>DiskBackedTrie.iterate\<close> for the serializer type \<open>'reg'\<close>, consumed to its end:
  what it yields, how it ended, and the object afterwards.\<close>

definition disk_iterate ::
  "('c NodeTrie \<Rightarrow> error + 's) \<Rightarrow> ('s \<Rightarrow> ('c list \<times> int) list \<times> ending) \<Rightarrow>
   ('c, 's) DiskBackedTrie \<Rightarrow> (('c list \<times> int) list \<times> ending) \<times> ('c, 's) DiskBackedTrie" where
  "disk_iterate ser deser d =
     (case finish ser d of
        Inl e \<Rightarrow> (([], Raised e), d)
      | Inr d1 \<Rightarrow>
          (let top = iterate (weights d1);
               sub = iterate_subtrees deser d1 (keys d1)
           in ((top @ fst sub, snd sub), d1\<lparr>current_branch_key := None\<rparr>)))"

text \<open>Increments into a new \<open>DiskBackedTrie\<close>, then \<open>iterate\<close>.\<close>

definition disk_build_and_iterate ::
  "('c NodeTrie \<Rightarrow> error + 's) \<Rightarrow> ('s \<Rightarrow> ('c list \<times> int) list \<times> ending) \<Rightarrow> int \<Rightarrow>
   ('c list \<times> int) list \<Rightarrow> (('c list \<times> int) list \<times> ending) \<times> ('c, 's) DiskBackedTrie" where
  "disk_build_and_iterate ser deser fl incs =
     (case disk_increment_all ser (new_DiskBackedTrie fl) incs of
        Inl e \<Rightarrow> (([], Raised e), new_DiskBackedTrie fl)
      | Inr d \<Rightarrow> disk_iterate ser deser d)"

text \<open>\<open>MemoryTrieSerializer\<close>: \<open>serialize\<close> stores the trie itself, \<open>deserialize\<close> iterates
  it.\<close>

definition memory_serialize :: "'c NodeTrie \<Rightarrow> error + 'c NodeTrie" where
  "memory_serialize trie = Inr trie"

definition memory_deserialize :: "'c NodeTrie \<Rightarrow> ('c list \<times> int) list \<times> ending" where
  "memory_deserialize trie = (iterate trie, Exhausted)"

text \<open>
  \<open>NodeTrieSerializer\<close> as the serializer of the partitions: \<open>serialize\<close> writes with
  \<open>do_serialize\<close> the entries that \<open>trie.iterate\<close> yields, and \<open>deserialize\<close> reads the
  file.
\<close>

definition node_serialize :: "'c encoder \<Rightarrow> int \<Rightarrow> 'c NodeTrie \<Rightarrow> error + byte list" where
  "node_serialize enc toc_chunk trie = do_serialize enc node_write_value toc_chunk (iterate trie)"

definition node_deserialize :: "'c decoder \<Rightarrow> byte list \<Rightarrow> ('c list \<times> int) list \<times> ending" where
  "node_deserialize dec file = deserialize dec node_read_value file"

text \<open>
  For the statements about a sequence of increments: the increments of the top-level
  trie, the increments of the partition of a key, and the condition that the increments
  with the same fork prefix follow one another (as \<open>HybridDiskPreprocessor.preprocess\<close>
  arranges them): the fork prefixes, with adjacent repetitions dropped, are distinct.
\<close>

definition top_incs :: "int \<Rightarrow> ('c list \<times> int) list \<Rightarrow> ('c list \<times> int) list" where
  "top_incs fl incs = map (\<lambda>kw. (slice_to fl (fst kw), snd kw)) incs"

definition partition_incs :: "int \<Rightarrow> 'c list \<Rightarrow> ('c list \<times> int) list \<Rightarrow> ('c list \<times> int) list" where
  "partition_incs fl key incs =
     map (\<lambda>kw. (slice_from fl (fst kw), snd kw)) (filter (\<lambda>kw. slice_to fl (fst kw) = key) incs)"

definition fork_keys :: "int \<Rightarrow> ('c list \<times> int) list \<Rightarrow> 'c list list" where
  "fork_keys fl incs = remdups_adj (map (\<lambda>kw. slice_to fl (fst kw)) incs)"

definition grouped :: "int \<Rightarrow> ('c list \<times> int) list \<Rightarrow> bool" where
  "grouped fl incs = distinct (fork_keys fl incs)"

text \<open>
  The tries of the partitions of a sequence of increments, in the order of the keys, and
  what the proofs ask of the serializer on a list of tries: \<open>serialize\<close> succeeds on
  each of them, and \<open>deserialize\<close> yields from what it stored the entries of the trie.
\<close>

definition partition_tries :: "int \<Rightarrow> ('c list \<times> int) list \<Rightarrow> 'c NodeTrie list" where
  "partition_tries fl incs =
     map (\<lambda>key. trie_of (partition_incs fl key incs)) (fork_keys fl incs)"

definition serializer_law ::
  "('c NodeTrie \<Rightarrow> error + 's) \<Rightarrow> ('s \<Rightarrow> ('c list \<times> int) list \<times> ending) \<Rightarrow>
   'c NodeTrie list \<Rightarrow> bool" where
  "serializer_law ser deser tries =
     (\<forall>t \<in> set tries. \<exists>s. ser t = Inr s \<and> deser s = (iterate t, Exhausted))"

text \<open>
  What holds of a \<open>DiskBackedTrie\<close> after a grouped sequence of increments: the keys are
  the fork prefixes in first-seen order, the last of them is open with the trie of its
  partition, and every earlier partition was serialized once, under its index.
\<close>

definition disk_inv ::
  "('c NodeTrie \<Rightarrow> error + 's) \<Rightarrow> int \<Rightarrow> ('c list \<times> int) list \<Rightarrow> ('c, 's) DiskBackedTrie \<Rightarrow> bool" where
  "disk_inv ser fl incs d =
     (keys d = fork_keys fl incs \<and> trie_fork_length d = fl \<and>
      weights d = trie_of (top_incs fl incs) \<and>
      current_branch_key d = (if incs = [] then None else Some (last (fork_keys fl incs))) \<and>
      current_node d =
        (if incs = [] then None
         else Some (trie_of (partition_incs fl (last (fork_keys fl incs)) incs))) \<and>
      serialized d = [0..<length (fork_keys fl incs) - 1] \<and>
      (\<forall>i < length (fork_keys fl incs) - 1.
         \<exists>s. map_of (storage d) i = Some s \<and>
             ser (trie_of (partition_incs fl (fork_keys fl incs ! i) incs)) = Inr s))"

text \<open>The output of \<open>iterate\<close> as a list of distinct paths with their weights.\<close>

definition disk_paths :: "int \<Rightarrow> ('c list \<times> int) list \<Rightarrow> 'c list list" where
  "disk_paths fl incs =
     tl (paths (trie_of (top_incs fl incs))) @
     concat (map (\<lambda>key. map ((@) key) (tl (paths (trie_of (partition_incs fl key incs)))))
               (fork_keys fl incs))"

section \<open>The parallel search: \<open>ParallelGuesser\<close>\<close>

text \<open>
  A text file opened for writing with the default buffering, as \<open>open(name, 'w')\<close> and
  \<open>tempfile.NamedTemporaryFile(mode = 'w')\<close> give it: \<open>on_disk\<close> is the text that is in
  the file, which is what another \<open>open(name, 'r')\<close> of the same name reads, and \<open>held\<close>
  is the text that \<open>write\<close> was given and that is still in the buffer of the stream.
  \<open>write\<close> only appends to the buffer, and the buffer is written out when it would hold
  more than \<open>io.DEFAULT_BUFFER_SIZE\<close> characters; \<open>flush\<close> and \<open>close\<close> write it out.
\<close>

record textfile =
  on_disk :: string
  held :: string

definition DEFAULT_BUFFER_SIZE :: nat where
  "DEFAULT_BUFFER_SIZE = 8192"

definition new_textfile :: textfile where
  "new_textfile = \<lparr> on_disk = [], held = [] \<rparr>"

definition file_write :: "string \<Rightarrow> textfile \<Rightarrow> textfile" where
  "file_write s f =
     (if DEFAULT_BUFFER_SIZE < length (held f) + length s
        then \<lparr> on_disk = on_disk f @ held f @ s, held = [] \<rparr>
      else f\<lparr> held := held f @ s \<rparr>)"

definition file_flush :: "textfile \<Rightarrow> textfile" where
  "file_flush f = \<lparr> on_disk = on_disk f @ held f, held = [] \<rparr>"

text \<open>
  The stream of a \<open>Guesser\<close> after a run: \<open>GuessSerializer.serialize\<close> calls
  \<open>self.ostream.write\<close> once for every emitted pair, with the line of that pair, on a
  stream that was empty when the object was made.
\<close>

definition write_calls :: "('p \<Rightarrow> string) \<Rightarrow> 'p Guesser \<Rightarrow> string list" where
  "write_calls fmt g = map (\<lambda>(password, prob). serialize_line fmt password prob) (emitted g)"

definition stream_of :: "('p \<Rightarrow> string) \<Rightarrow> 'p Guesser \<Rightarrow> textfile" where
  "stream_of fmt g = fold file_write (write_calls fmt g) new_textfile"

text \<open>
  \<open>Guesser.do_guessing(model, config, ofname, start, start_prob)\<close>, which every forked
  worker runs through \<open>fork_entry_point\<close> on its own file: it opens the file for
  writing, runs \<open>Guesser.recur(start, start_prob)\<close>, then \<open>ostream.flush()\<close> and
  \<open>ostream.close()\<close>. The result is the counter \<open>generated\<close> and the text left in the
  file; an exception of the run is raised.
\<close>

definition do_guessing ::
  "('p::{times,linorder}) ModelDefaults \<Rightarrow> ('p \<Rightarrow> string) \<Rightarrow> (string \<Rightarrow> error + 'p list) \<Rightarrow>
   string \<Rightarrow> 'p \<Rightarrow> error + nat \<times> string" where
  "do_guessing cfg fmt cp start0 start_prob =
     (case recur PlainGuesser cfg fmt cp start0 start_prob new_Guesser of
        Inl (e, g) \<Rightarrow> Inl e
      | Inr g \<Rightarrow> Inr (generated g, on_disk (file_flush (stream_of fmt g))))"

text \<open>
  \<open>pool.map_async(self.fork_starter, arg_list)\<close> with \<open>result.get\<close>: one call of
  \<open>do_guessing\<close> for every fork point, each on a temporary file of its own, the results
  in the order of the fork points. \<open>result.get\<close> raises the exception of a worker that
  failed. The workers share nothing, so their runs are modelled one after the other.
\<close>

fun run_workers ::
  "('p::{times,linorder}) ModelDefaults \<Rightarrow> ('p \<Rightarrow> string) \<Rightarrow> (string \<Rightarrow> error + 'p list) \<Rightarrow>
   (string \<times> 'p) list \<Rightarrow> error + (nat \<times> string) list" where
  "run_workers cfg fmt cp [] = Inr []"
| "run_workers cfg fmt cp (fork_point # fps) =
     (case do_guessing cfg fmt cp (fst fork_point) (snd fork_point) of
        Inl e \<Rightarrow> Inl e
      | Inr r \<Rightarrow>
          (case run_workers cfg fmt cp fps of
             Inl e \<Rightarrow> Inl e
           | Inr rs \<Rightarrow> Inr (r # rs)))"

text \<open>
  \<open>ParallelGuesser.collect_answer\<close>: opens by name, for reading, the temporary file of
  the root and then the intermediate files in their order, and writes every line of
  each to \<open>real_output\<close>, which it then flushes. The first argument is the stream
  \<open>self.tempOstream\<close> as the root left it, the second the texts in the intermediate
  files, the third the text already in \<open>real_output\<close>.
\<close>

definition collect_answer :: "textfile \<Rightarrow> string list \<Rightarrow> string \<Rightarrow> string" where
  "collect_answer tempOstream intermediate_files real_output =
     fold (\<lambda>stream out. out @ stream) (on_disk tempOstream # intermediate_files) real_output"

text \<open>
  \<open>ParallelGuesser.do_forking\<close>. \<open>multiprocessing.Pool(min(len(arg_list), cpu_count()))\<close>
  raises \<open>ValueError\<close> for a pool of no process, which is the case without fork points.
  After the workers \<open>self.generated\<close> is the sum of their counters and the root's, and
  \<open>collect_answer\<close> fills \<open>real_output\<close>. Nothing writes to, flushes or closes
  \<open>self.tempOstream\<close> between the run of the root and \<open>collect_answer\<close>.
\<close>

definition do_forking ::
  "('p::{times,linorder}) ModelDefaults \<Rightarrow> ('p \<Rightarrow> string) \<Rightarrow> (string \<Rightarrow> error + 'p list) \<Rightarrow>
   'p Guesser \<Rightarrow> string \<Rightarrow> error + 'p Guesser \<times> string" where
  "do_forking cfg fmt cp g real_output =
     (if fork_points g = [] then Inl ValueError
      else case run_workers cfg fmt cp (fork_points g) of
             Inl e \<Rightarrow> Inl e
           | Inr answer \<Rightarrow>
               Inr (g\<lparr> generated := sum_list (map fst answer) + generated g \<rparr>,
                    collect_answer (stream_of fmt g) (map snd answer) real_output))"

text \<open>
  \<open>ParallelGuesser.guess\<close>: \<open>self.recur('', 1)\<close>, then \<open>self.do_forking()\<close>, on a new
  object whose \<open>real_output\<close> is empty. The result is the object and the text in
  \<open>real_output\<close>.
\<close>

definition parallel_guess ::
  "('p::{times,linorder,one}) ModelDefaults \<Rightarrow> ('p \<Rightarrow> string) \<Rightarrow>
   (string \<Rightarrow> error + 'p list) \<Rightarrow> error + 'p Guesser \<times> string" where
  "parallel_guess cfg fmt cp =
     (case recur ParallelGuesser cfg fmt cp [] 1 new_Guesser of
        Inl (e, g) \<Rightarrow> Inl e
      | Inr g \<Rightarrow> do_forking cfg fmt cp g [])"

text \<open>
  The scenario of the specification for the parallel merge: the alphabet is \<open>a\<close>, \<open>b\<close>
  and the end marker, passwords have two characters, the fork length is 1 and the oracle
  answers the uniform distribution, so that there are two fork points and the worker of
  each writes three lines. The root itself writes one line, for the empty password.
\<close>

definition parallel_config :: "real ModelDefaults" where
  "parallel_config =
     (defaults (1 / 30))\<lparr> char_bag := ''ab'' @ [PASSWORD_END], max_len := 2, min_len := 2,
       relevel_not_matching_passwords := False, fork_length := 1 \<rparr>"

chapter \<open>Verified properties\<close>

section \<open>Configuration validation\<close>

lemma validate_defaults: "validate (defaults t) = Inr ()"
  by (simp add: validate_def defaults_def)

text \<open>
  Claim C8, as the code has it. \<open>validate\<close> rejects every configuration whose fork
  length is not below the minimum password length; it never looks at the lower
  probability threshold, so it accepts or rejects a configuration whatever that
  threshold is.
\<close>

theorem C8_validate_fork_length_only:
  "(min_len c \<le> fork_length c \<longrightarrow> validate c = Inl AssertionError)
   \<and> validate (c\<lparr>lower_probability_threshold := t\<rparr>) = validate c"
  by (simp add: validate_def)

theorem C8_validate_fork_length_only_witness:
  "min_len ((defaults (1 :: real))\<lparr>fork_length := 4\<rparr>) \<le>
     fork_length ((defaults (1 :: real))\<lparr>fork_length := 4\<rparr>)
   \<and> validate ((defaults (1 :: real))\<lparr>fork_length := 4\<rparr>) = Inl AssertionError"
  using C8_validate_fork_length_only [of "(defaults (1 :: real))\<lparr>fork_length := 4\<rparr>"]
  by (simp add: defaults_def)

text \<open>
  The claim as stated fails: the default configuration with the threshold 0 passes
  \<open>validate\<close>, and so does one with a negative threshold.
\<close>

theorem C8_threshold_zero_accepted:
  "validate ((defaults (1 :: real))\<lparr>lower_probability_threshold := 0\<rparr>) = Inr ()"
  by (simp add: validate_def defaults_def)

lemma validate_negative_threshold:
  "validate ((defaults (1 :: real))\<lparr>lower_probability_threshold := - 1\<rparr>) = Inr ()"
  by (simp add: validate_def defaults_def)

section \<open>The search: an induction principle for invariants of a run\<close>

lemma recur_unfold:
  "recur cls cfg fmt cp astring prob g =
     (if cls = ParallelGuesser \<and> int (length astring) = fork_length cfg
        then Inr (g\<lparr>fork_points := fork_points g @ [(astring, prob)]\<rparr>)
      else if prob < lower_probability_threshold cfg then Inr g
      else if int (length astring) > max_len cfg then
        (if int (length (strip_end astring)) = max_len cfg
           then Inr (emit fmt astring prob g)
         else Inr g)
      else
        (case cp astring of
           Inl e \<Rightarrow> Inl (e, g\<lparr>queried := queried g @ [(astring, prob)]\<rparr>)
         | Inr prediction \<Rightarrow>
             fold (recur_step cls cfg fmt cp astring prob prediction) (ctable_chars cfg)
               (Inr (g\<lparr>queried := queried g @ [(astring, prob)]\<rparr>))))"
  unfolding recur_step_def by (rule recur.simps)

declare recur.simps [simp del]

lemma fold_recur_step_inv:
  assumes step: "\<And>c p g1. c \<in> set cs \<Longrightarrow> c \<noteq> PASSWORD_END \<Longrightarrow>
      cond_prob_from_preds (ctable_chars cfg) c prediction = Inr p \<Longrightarrow> I g1 \<Longrightarrow>
      I (final_state (recur cls cfg fmt cp (astring @ [c]) (p * prob) g1))"
    and em: "\<And>c p g1. c = PASSWORD_END \<Longrightarrow> lower_probability_threshold cfg \<le> p * prob \<Longrightarrow> I g1 \<Longrightarrow>
      I (emit fmt (astring @ [c]) (p * prob) g1)"
    and init: "I (final_state acc)"
  shows "I (final_state (fold (recur_step cls cfg fmt cp astring prob prediction) cs acc))"
  using step init
proof (induction cs arbitrary: acc)
  case Nil
  then show ?case by simp
next
  case (Cons c cs)
  have "I (final_state (recur_step cls cfg fmt cp astring prob prediction c acc))"
  proof (cases acc)
    case (Inl x)
    then show ?thesis using Cons.prems(2) by (simp add: recur_step_def)
  next
    case (Inr g1)
    then have g1: "I g1" using Cons.prems(2) by simp
    show ?thesis
    proof (cases "cond_prob_from_preds (ctable_chars cfg) c prediction")
      case (Inl e)
      then show ?thesis using Inr g1 by (simp add: recur_step_def)
    next
      case p: (Inr p)
      show ?thesis
        using Inr g1 p em [of c p g1] Cons.prems(1) [of c p g1]
        by (simp add: recur_step_def)
    qed
  qed
  then show ?case
    using Cons.IH [of "recur_step cls cfg fmt cp astring prob prediction c acc"] Cons.prems(1)
    by simp
qed

lemma recur_invariant:
  assumes em: "\<And>a p g. P a \<Longrightarrow> I g \<Longrightarrow> lower_probability_threshold cfg \<le> p \<Longrightarrow>
                 I (emit fmt (a @ [PASSWORD_END]) p g)"
    and over: "\<And>a p g. P a \<Longrightarrow> I g \<Longrightarrow> \<not> p < lower_probability_threshold cfg \<Longrightarrow>
                 max_len cfg < int (length a) \<Longrightarrow> int (length (strip_end a)) = max_len cfg \<Longrightarrow>
                 I (emit fmt a p g)"
    and query: "\<And>a p g. P a \<Longrightarrow> I g \<Longrightarrow> \<not> p < lower_probability_threshold cfg \<Longrightarrow>
                 I (g\<lparr>queried := queried g @ [(a, p)]\<rparr>)"
    and fork: "\<And>a p g. P a \<Longrightarrow> I g \<Longrightarrow> I (g\<lparr>fork_points := fork_points g @ [(a, p)]\<rparr>)"
    and ext: "\<And>a c. P a \<Longrightarrow> c \<noteq> PASSWORD_END \<Longrightarrow> P (a @ [c])"
    and "P astring" "I g"
  shows "I (final_state (recur cls cfg fmt cp astring prob g))"
  using assms
proof (induction cls cfg fmt cp astring prob g rule: recur.induct)
  case (1 cls cfg fmt cp astring prob g)
  let ?t = "lower_probability_threshold cfg"
  note em = "1.prems"(1) and over = "1.prems"(2) and query = "1.prems"(3)
    and fork = "1.prems"(4) and ext = "1.prems"(5)
    and Pa = "1.prems"(6) and Ig = "1.prems"(7)
  show ?case
  proof (cases "cls = ParallelGuesser \<and> int (length astring) = fork_length cfg")
    case True
    then show ?thesis using fork [OF Pa Ig] by (simp add: recur_unfold)
  next
    case nf: False
    show ?thesis
    proof (cases "prob < ?t")
      case True
      then show ?thesis using nf Ig by (auto simp: recur_unfold)
    next
      case np: False
      show ?thesis
      proof (cases "int (length astring) > max_len cfg")
        case True
        then show ?thesis using nf np Ig over [OF Pa Ig np]
          by (auto simp: recur_unfold)
      next
        case nl: False
        have q: "I (g\<lparr>queried := queried g @ [(astring, prob)]\<rparr>)"
          using Pa Ig np by (rule query)
        show ?thesis
        proof (cases "cp astring")
          case (Inl e)
          then show ?thesis using nf np nl q by (auto simp: recur_unfold)
        next
          case (Inr prediction)
          have "I (final_state
                  (fold (recur_step cls cfg fmt cp astring prob prediction) (ctable_chars cfg)
                     (Inr (g\<lparr>queried := queried g @ [(astring, prob)]\<rparr>))))"
          proof (rule fold_recur_step_inv)
            fix c p g1
            assume c: "c \<in> set (ctable_chars cfg)" "c \<noteq> PASSWORD_END"
              "cond_prob_from_preds (ctable_chars cfg) c prediction = Inr p" "I g1"
            have "P (astring @ [c])" using Pa c(2) by (rule ext)
            then show "I (final_state (recur cls cfg fmt cp (astring @ [c]) (p * prob) g1))"
              using "1.IH" [OF nf np nl Inr c(1) c(3) _ c(2) em over query fork ext _ c(4)] c(2)
              by blast
          next
            fix c p g1
            assume "c = PASSWORD_END" "?t \<le> p * prob" "I g1"
            then show "I (emit fmt (astring @ [c]) (p * prob) g1)"
              using em [OF Pa] by simp
          next
            show "I (final_state (Inr (g\<lparr>queried := queried g @ [(astring, prob)]\<rparr>)))"
              using q by simp
          qed
          then show ?thesis using nf np nl Inr by (auto simp: recur_unfold)
        qed
      qed
    qed
  qed
qed


section \<open>The search: threshold soundness\<close>

text \<open>
  Claim C2. For every oracle, configuration and starting state, every pair that
  \<open>Guesser.recur\<close> emits has a probability of at least the configured threshold, and
  \<open>recur\<close> never queries the oracle for a prefix whose cumulative probability is below
  the threshold. This holds whether the run returns or raises.
\<close>

theorem C2_threshold_soundness:
  "threshold_sound (lower_probability_threshold cfg)
     (final_state (recur PlainGuesser cfg fmt cp astring prob new_Guesser))"
proof (rule recur_invariant [where P = "\<lambda>_. True"])
  show "threshold_sound (lower_probability_threshold cfg) new_Guesser"
    by (simp add: threshold_sound_def new_Guesser_def)
qed (auto simp: threshold_sound_def emit_def)

theorem C2_threshold_soundness_witness:
  "threshold_sound (1 / 20)
     (final_state (recur PlainGuesser scenario_config plain_fmt uniform_oracle [] 1 new_Guesser))
   \<and> emitted (final_state
         (recur PlainGuesser scenario_config plain_fmt uniform_oracle [] 1 new_Guesser)) =
       [([CHR 0x0A], 1 / 3), ([CHR ''a'', CHR 0x0A], 1 / 9), ([CHR ''b'', CHR 0x0A], 1 / 9)]
   \<and> queried (final_state
         (recur PlainGuesser scenario_config plain_fmt uniform_oracle [] 1 new_Guesser)) =
       [([], 1), (''a'', 1 / 3), (''aa'', 1 / 9), (''ab'', 1 / 9), (''b'', 1 / 3),
        (''ba'', 1 / 9), (''bb'', 1 / 9)]"
proof -
  have t: "lower_probability_threshold scenario_config = 1 / 20"
    by (simp add: scenario_config_def defaults_def)
  have e: "emitted (final_state
         (recur PlainGuesser scenario_config plain_fmt uniform_oracle [] 1 new_Guesser)) =
       [([CHR 0x0A], 1 / 3), ([CHR ''a'', CHR 0x0A], 1 / 9), ([CHR ''b'', CHR 0x0A], 1 / 9)]"
    by code_simp
  have q: "queried (final_state
         (recur PlainGuesser scenario_config plain_fmt uniform_oracle [] 1 new_Guesser)) =
       [([], 1), (''a'', 1 / 3), (''aa'', 1 / 9), (''ab'', 1 / 9), (''b'', 1 / 3),
        (''ba'', 1 / 9), (''bb'', 1 / 9)]"
    by code_simp
  show ?thesis
    using C2_threshold_soundness [of scenario_config plain_fmt uniform_oracle "[]" 1] t e q
    by simp
qed

section \<open>The search: the lines written by \<open>GuessSerializer\<close>\<close>

lemma dropWhile_free: "x \<notin> set a \<Longrightarrow> dropWhile (\<lambda>c. c = x) a = a"
  by (cases a) auto

lemma strip_end_free: "PASSWORD_END \<notin> set a \<Longrightarrow> strip_end a = a"
  by (simp add: strip_end_def dropWhile_free)

lemma strip_end_snoc_END:
  "PASSWORD_END \<notin> set a \<Longrightarrow> strip_end (a @ [PASSWORD_END]) = a"
proof -
  assume a: "PASSWORD_END \<notin> set a"
  then have "dropWhile (\<lambda>c. c = PASSWORD_END) (a @ [PASSWORD_END]) =
      (if a = [] then [] else a @ [PASSWORD_END])"
    by (cases a) auto
  then show ?thesis using a by (simp add: strip_end_def dropWhile_free)
qed

lemma strip_end_decomp:
  "\<exists>pre suf. s = pre @ strip_end s @ suf \<and> set pre \<subseteq> {PASSWORD_END} \<and> set suf \<subseteq> {PASSWORD_END}"
proof -
  let ?P = "\<lambda>c. c = PASSWORD_END"
  let ?m = "dropWhile ?P s"
  have 1: "s = takeWhile ?P s @ ?m" by simp
  have "rev ?m = takeWhile ?P (rev ?m) @ dropWhile ?P (rev ?m)" by simp
  then have "?m = rev (dropWhile ?P (rev ?m)) @ rev (takeWhile ?P (rev ?m))"
    by (metis rev_append rev_rev_ident)
  then have 2: "?m = strip_end s @ rev (takeWhile ?P (rev ?m))"
    by (simp add: strip_end_def)
  have 3: "set (takeWhile ?P s) \<subseteq> {PASSWORD_END}"
    using set_takeWhileD by fastforce
  have 4: "set (rev (takeWhile ?P (rev ?m))) \<subseteq> {PASSWORD_END}"
    using set_takeWhileD by fastforce
  from 1 2 have "s = takeWhile ?P s @ strip_end s @ rev (takeWhile ?P (rev ?m))"
      by metis 
  with 3 4 show ?thesis by blast
qed

lemma strip_end_ends:
  assumes "strip_end s \<noteq> []"
  shows "hd (strip_end s) \<noteq> PASSWORD_END \<and> last (strip_end s) \<noteq> PASSWORD_END"
proof -
  let ?P = "\<lambda>c. c = PASSWORD_END"
  let ?m = "dropWhile ?P s"
  let ?r = "dropWhile ?P (rev ?m)"
  have s: "strip_end s = rev ?r" by (simp add: strip_end_def)
  with assms have r: "?r \<noteq> []" by simp
  have aux: "\<And>m :: string. dropWhile ?P (rev m) \<noteq> [] \<Longrightarrow> m \<noteq> []" by auto
  have m: "?m \<noteq> []" using r by (rule aux)
  have "last (rev ?r) = hd ?r" using r by (simp add: last_rev)
  moreover have "\<not> ?P (hd ?r)" using r by (rule hd_dropWhile)
  ultimately have L: "last (strip_end s) \<noteq> PASSWORD_END" using s by simp
  have "rev ?m = takeWhile ?P (rev ?m) @ ?r" by simp
  then have "last (rev ?m) = last ?r" using r by (metis last_appendR)
  then have "last ?r = hd ?m" using m by (simp add: last_rev)
  moreover have "hd (rev ?r) = last ?r" using r by (simp add: hd_rev)
  moreover have "\<not> ?P (hd ?m)" using m by (rule hd_dropWhile)
  ultimately have "hd (strip_end s) \<noteq> PASSWORD_END" using s by simp
  with L show ?thesis by simp
qed


lemma output_wf_recur:
  assumes "PASSWORD_END \<notin> set astring" "output_wf fmt g"
  shows "output_wf fmt (final_state (recur cls cfg fmt cp astring prob g))"
proof (rule recur_invariant [where P = "\<lambda>a. PASSWORD_END \<notin> set a" and I = "output_wf fmt"])
  fix a p g
  assume "PASSWORD_END \<notin> set a" "output_wf fmt g"
  then show "output_wf fmt (emit fmt (a @ [PASSWORD_END]) p g)"
    by (auto simp: output_wf_def emit_def serialize_line_def line_of_def strip_end_snoc_END)
next
  fix a p g
  assume "PASSWORD_END \<notin> set a" "output_wf fmt g"
  then show "output_wf fmt (emit fmt a p g)"
    by (auto simp: output_wf_def emit_def serialize_line_def line_of_def strip_end_free)
qed (use assms in \<open>auto simp: output_wf_def\<close>)

text \<open>
  Claim C10. \<open>GuessSerializer.serialize\<close> writes the password with the end markers at
  both ends removed, a tab, the probability and a newline: the stripped password is what
  is left of the password between a leading and a trailing run of end markers, and it
  neither starts nor ends with one. In a run of \<open>Guesser.recur\<close> that starts from a
  prefix without end marker, the output stream is the sequence of these lines, one per
  emitted pair, and no stripped password contains the end marker.
\<close>

theorem C10_serialize_strips_end_marker:
  "serialize_line fmt password prob = strip_end password @ [CHR 0x09] @ fmt prob @ [CHR 0x0A]
   \<and> (\<exists>pre suf. password = pre @ strip_end password @ suf \<and>
          set pre \<subseteq> {PASSWORD_END} \<and> set suf \<subseteq> {PASSWORD_END})
   \<and> (strip_end password \<noteq> [] \<longrightarrow>
        hd (strip_end password) \<noteq> PASSWORD_END \<and> last (strip_end password) \<noteq> PASSWORD_END)
   \<and> (PASSWORD_END \<notin> set astring \<longrightarrow>
        output_wf fmt (final_state (recur PlainGuesser cfg fmt cp astring p0 new_Guesser)))"
proof -
  have "output_wf fmt (new_Guesser :: 'a Guesser)"
    by (simp add: output_wf_def new_Guesser_def)
  then show ?thesis
    using strip_end_decomp [of password] strip_end_ends [of password]
      output_wf_recur [of astring fmt new_Guesser PlainGuesser cfg cp p0]
    by (simp add: serialize_line_def)
qed

theorem C10_serialize_strips_end_marker_witness:
  "serialize_line plain_fmt [CHR 0x0A, CHR ''a'', CHR 0x0A, CHR 0x0A] (1 / 9) =
     [CHR ''a'', CHR 0x09, CHR ''p'', CHR 0x0A]
   \<and> strip_end [CHR 0x0A, CHR ''a'', CHR 0x0A, CHR 0x0A] \<noteq> []
   \<and> PASSWORD_END \<notin> set []
   \<and> output_wf plain_fmt
        (final_state (recur PlainGuesser scenario_config plain_fmt uniform_oracle [] 1 new_Guesser))
   \<and> ostream (final_state
        (recur PlainGuesser scenario_config plain_fmt uniform_oracle [] 1 new_Guesser)) =
      [CHR 0x09, CHR ''p'', CHR 0x0A, CHR ''a'', CHR 0x09, CHR ''p'', CHR 0x0A,
       CHR ''b'', CHR 0x09, CHR ''p'', CHR 0x0A]"
proof -
  have s: "strip_end [CHR 0x0A, CHR ''a'', CHR 0x0A, CHR 0x0A] = ''a''"
    by (simp add: strip_end_def PASSWORD_END_def)
  have o: "ostream (final_state
        (recur PlainGuesser scenario_config plain_fmt uniform_oracle [] 1 new_Guesser)) =
      [CHR 0x09, CHR ''p'', CHR 0x0A, CHR ''a'', CHR 0x09, CHR ''p'', CHR 0x0A,
       CHR ''b'', CHR 0x09, CHR ''p'', CHR 0x0A]"
    by code_simp
  show ?thesis
    using C10_serialize_strips_end_marker
      [of plain_fmt "[CHR 0x0A, CHR ''a'', CHR 0x0A, CHR 0x0A]" "1 / 9" "[]"
          scenario_config uniform_oracle 1] s o
    by (simp add: plain_fmt_def)
qed

section \<open>The trie: the weight that \<open>increment\<close> adds to every node\<close>

lemma weight_increment_loop [simp]: "weight (increment_loop t k wt) = weight t + wt"
  by (cases t; cases k) simp_all

lemma weight_at_Nil [simp]: "weight_at t [] = weight t"
  by (simp add: weight_at_def)

lemma weight_at_empty [simp]: "weight_at empty_trie p = 0"
  by (cases p) (simp_all add: weight_at_def empty_trie_def)

lemma weight_at_Cons:
  "weight_at (NodeTrie w ns) (c # cs) = weight_at (get_node ns c) cs"
  by (cases "map_of ns c") (simp_all add: weight_at_def get_node_def empty_trie_def split: list.splits, (cases cs; simp add: empty_trie_def)+)

lemma weight_at_increment_loop:
  "weight_at (increment_loop t k wt) p = weight_at t p + (if prefix p k then wt else 0)"
proof (induction k arbitrary: t p)
  case Nil
  then show ?case by (cases t; cases p) (simp_all add: weight_at_def)
next
  case (Cons c cs)
  obtain w ns where t: "t = NodeTrie w ns" by (cases t)
  show ?case
  proof (cases p)
    case Nil
    then show ?thesis using t by simp
  next
    case p: (Cons d ps)
    show ?thesis
    proof (cases "d = c")
      case True
      have "weight_at (increment_loop t (c # cs) wt) p =
            weight_at (increment_loop (get_node ns c) cs wt) ps"
        using t p True by (simp add: weight_at_Cons get_node_def update_conv')
      also have "\<dots> = weight_at (get_node ns c) ps + (if prefix ps cs then wt else 0)"
        by (rule Cons.IH)
      finally show ?thesis using t p True by (simp add: weight_at_Cons)
    next
      case False
      then show ?thesis using t p by (simp add: weight_at_Cons get_node_def update_conv')
    qed
  qed
qed

lemma weight_at_increment:
  "weight_at (increment t k wt) p =
     weight_at t p + (if prefix p k then wt else 0) + (if p = [] then wt else 0)"
proof -
  have "weight_at (NodeTrie (weight t + wt) (nodes t)) p = weight_at t p + (if p = [] then wt else 0)"
    by (cases t; cases p) (simp_all add: weight_at_Cons)
  then show ?thesis
    by (simp add: increment_def increment_optimized_def weight_at_increment_loop)
qed

lemma prefix_weight_Nil [simp]: "prefix_weight [] p = 0"
  by (simp add: prefix_weight_def)

lemma prefix_weight_Cons [simp]:
  "prefix_weight (kw # incs) p = (if prefix p (fst kw) then snd kw else 0) + prefix_weight incs p"
  by (simp add: prefix_weight_def)

lemma prefix_weight_root: "prefix_weight incs [] = sum_list (map snd incs)"
  by (induction incs) simp_all

lemma weight_at_increment_all:
  "weight_at (increment_all t incs) p =
     weight_at t p + prefix_weight incs p + (if p = [] then sum_list (map snd incs) else 0)"
  by (induction incs arbitrary: t) (simp_all add: increment_all_def weight_at_increment)

lemma weight_at_trie_of:
  "weight_at (trie_of incs) p =
     (if p = [] then 2 * sum_list (map snd incs) else prefix_weight incs p)"
  by (simp add: trie_of_def weight_at_increment_all prefix_weight_root)

text \<open>
  Claim C1 says that \<open>increment\<close> adds the weight exactly once to the node of every
  prefix of the key, the root included. The code adds it once to the node of every
  non-empty prefix (\<open>weight_at_increment\<close>) and twice to the root: once before the loop
  and once more either in the first iteration or, for the empty key, after the loop.
  After incrementing the key \<open>a\<close> with weight 1 in a new trie, the root has weight 2 and
  the node of \<open>a\<close> has weight 1.
\<close>

theorem C1_root_weight_counted_twice:
  "weight (increment empty_trie ''a'' 1) = 2 \<and> weight_at (increment empty_trie ''a'' 1) ''a'' = 1"
  by (simp add: weight_at_increment flip: weight_at_Nil)

section \<open>Relevelling a prediction\<close>

lemma fst_pwd_is_valid [simp]: "fst (pwd_is_valid f pwd) = pwd_answer f pwd"
  by (simp add: pwd_is_valid_def Let_def)

lemma index_of_nth: "distinct xs \<Longrightarrow> k < length xs \<Longrightarrow> index_of xs (xs ! k) = Some k"
proof (induction xs arbitrary: k)
  case Nil
  then show ?case by simp
next
  case (Cons x xs)
  then show ?case by (cases k) auto
qed

lemma index_of_Some: "index_of xs x = Some i \<Longrightarrow> i < length xs \<and> xs ! i = x"
proof (induction xs arbitrary: i)
  case Nil
  then show ?case by simp
next
  case (Cons y ys)
  then show ?case by (auto split: if_splits)
qed

lemma index_of_mem: "x \<in> set xs \<Longrightarrow> \<exists>i. index_of xs x = Some i"
  by (induction xs) auto

lemma distinct_ctable_chars: "distinct (ctable_chars config)"
  by (simp add: ctable_chars_def)

lemma set_ctable_chars: "set (ctable_chars config) = set (char_bag config)"
  by (simp add: ctable_chars_def)

lemma sum_list_divide:
  "sum_list (map (\<lambda>v. v / s) (xs :: real list)) = sum_list xs / s"
  by (induction xs) (simp_all add: add_divide_distrib)

lemma renormalize_sum:
  "renormalize preds = Probs ps \<Longrightarrow> sum_list ps = 1 \<and> length ps = length preds"
  by (auto simp: renormalize_def Let_def sum_list_divide split: if_splits)

lemma renormalize_NotFinite: "renormalize preds = NotFinite \<longleftrightarrow> sum_list preds = 0"
  by (simp add: renormalize_def Let_def)

lemma renormalize_zero_entry:
  "renormalize preds = Probs ps \<Longrightarrow> i < length preds \<Longrightarrow> preds ! i = 0 \<Longrightarrow> ps ! i = 0"
  by (auto simp: renormalize_def Let_def split: if_splits)

lemma sum_list_end_only:
  "distinct chars \<Longrightarrow> PASSWORD_END \<in> set chars \<Longrightarrow> sum_list (end_only chars) = 1"
proof (induction chars)
  case Nil
  then show ?case by simp
next
  case (Cons c cs)
  have z: "PASSWORD_END \<notin> set cs \<Longrightarrow> sum_list (end_only cs) = 0"
    by (induction cs) (auto simp: end_only_def)
  show ?case
  proof (cases "c = PASSWORD_END")
    case True
    then show ?thesis using Cons.prems z by (simp add: end_only_def)
  next
    case False
    then show ?thesis using Cons by (simp add: end_only_def)
  qed
qed

lemma renormalize_end_only:
  "distinct chars \<Longrightarrow> PASSWORD_END \<in> set chars \<Longrightarrow>
   renormalize (end_only chars) = Probs (end_only chars)"
  by (simp add: renormalize_def sum_list_end_only)

lemma force_end_drop:
  assumes "distinct chars" "length preds = length chars"
  shows "k \<le> length chars \<Longrightarrow>
     force_end chars (drop k chars) (take k (end_only chars) @ drop k preds) =
       Inr (end_only chars)"
proof (induction "length chars - k" arbitrary: k)
  case 0
  then show ?case using assms(2) by (simp add: end_only_def)
next
  case (Suc n)
  then have k: "k < length chars" by simp
  have d: "drop k chars = chars ! k # drop (Suc k) chars"
    using k by (simp add: Cons_nth_drop_Suc)
  have i: "get_char_index chars (chars ! k) = Inr k"
    using assms(1) k by (simp add: get_char_index_def index_of_nth)
  let ?v = "if chars ! k = PASSWORD_END then 1 else 0 :: real"
  have l: "k < length (take k (end_only chars) @ drop k preds)"
    using k assms(2) by (simp add: end_only_def)
  have u: "(take k (end_only chars) @ drop k preds)[k := ?v] =
           take (Suc k) (end_only chars) @ drop (Suc k) preds"
  proof -
    have "length (take k (end_only chars)) = k" using k by (simp add: end_only_def)
    then have "(take k (end_only chars) @ drop k preds)[k := ?v] =
        take k (end_only chars) @ (drop k preds)[0 := ?v]"
      by (simp add: list_update_append)
    also have "(drop k preds)[0 := ?v] = ?v # drop (Suc k) preds"
      using k assms(2) by (simp add: Cons_nth_drop_Suc [symmetric])
    also have "take k (end_only chars) @ ?v # drop (Suc k) preds =
        take (Suc k) (end_only chars) @ drop (Suc k) preds"
      using k by (simp add: take_Suc_conv_app_nth end_only_def)
    finally show ?thesis .
  qed
  have "force_end chars (drop (Suc k) chars)
          (take (Suc k) (end_only chars) @ drop (Suc k) preds) = Inr (end_only chars)"
    using Suc.hyps(1) [of "Suc k"] Suc.hyps(2) k by simp
  then show ?case using d i l u by (simp add: set_pred_def)
qed

lemma force_end_all:
  assumes "distinct chars" "length preds = length chars"
  shows "force_end chars chars preds = Inr (end_only chars)"
  using force_end_drop [OF assms, of 0] by simp

text \<open>
  Claim C7, as the code has it. Let the end marker be in the alphabet, at index \<open>i\<close> of
  the character table, and let the prediction vector have one entry per character.
  If the trimmed prefix is invalid, the entry of the end marker is set to 0 and the
  vector is renormalized, so that entry is 0 in any distribution that results. If the
  prefix is valid and its length is the maximum length, the result is exactly 1 for the
  end marker and 0 for every other symbol. Otherwise the vector is only renormalized.
  No exception is raised, and every result that is a vector of numbers sums to 1; the
  result is not such a vector exactly when the sum before the division is 0.
\<close>

theorem C7_relevel_prediction:
  assumes "PASSWORD_END \<in> set (char_bag config)"
    and "length preds = length (ctable_chars config)"
  shows "\<exists>i. index_of (ctable_chars config) PASSWORD_END = Some i \<and> i < length preds \<and>
      (\<not> pwd_answer f astring \<longrightarrow>
         fst (relevel_prediction config f preds astring) = Inr (renormalize (preds[i := 0]))) \<and>
      (pwd_answer f astring \<and> int (length astring) = max_len config \<longrightarrow>
         fst (relevel_prediction config f preds astring) =
           Inr (Probs (end_only (ctable_chars config)))) \<and>
      (pwd_answer f astring \<and> int (length astring) \<noteq> max_len config \<longrightarrow>
         fst (relevel_prediction config f preds astring) = Inr (renormalize preds)) \<and>
      (\<forall>ps. renormalize (preds[i := 0]) = Probs ps \<longrightarrow> ps ! i = 0) \<and>
      (\<forall>ps. fst (relevel_prediction config f preds astring) = Inr (Probs ps) \<longrightarrow>
         sum_list ps = 1 \<and> length ps = length preds)"
proof -
  let ?chars = "ctable_chars config"
  have mem: "PASSWORD_END \<in> set ?chars" using assms(1) by (simp add: set_ctable_chars)
  then obtain i where i: "index_of ?chars PASSWORD_END = Some i"
    using index_of_mem by fastforce
  then have il: "i < length preds" using index_of_Some [OF i] assms(2) by simp
  have v: "fst (pwd_is_valid f astring) = pwd_answer f astring" by simp
  have A: "\<not> pwd_answer f astring \<Longrightarrow>
         fst (relevel_prediction config f preds astring) = Inr (renormalize (preds[i := 0]))"
    using i il v
    by (simp add: relevel_prediction_def get_char_index_def set_pred_def split_beta Let_def)
  have B: "pwd_answer f astring \<and> int (length astring) = max_len config \<Longrightarrow>
         fst (relevel_prediction config f preds astring) = Inr (Probs (end_only ?chars))"
    using v force_end_all [OF distinct_ctable_chars assms(2)]
      renormalize_end_only [OF distinct_ctable_chars mem]
    by (simp add: relevel_prediction_def split_beta Let_def)
  have C: "pwd_answer f astring \<and> int (length astring) \<noteq> max_len config \<Longrightarrow>
         fst (relevel_prediction config f preds astring) = Inr (renormalize preds)"
    using v by (simp add: relevel_prediction_def split_beta Let_def)
  have D: "\<And>ps. renormalize (preds[i := 0]) = Probs ps \<Longrightarrow> ps ! i = 0"
    using il by (auto dest: renormalize_zero_entry [where i = i])
  have E: "\<And>ps. fst (relevel_prediction config f preds astring) = Inr (Probs ps) \<Longrightarrow>
         sum_list ps = 1 \<and> length ps = length preds"
  proof -
    fix ps
    assume r: "fst (relevel_prediction config f preds astring) = Inr (Probs ps)"
    show "sum_list ps = 1 \<and> length ps = length preds"
    proof (cases "pwd_answer f astring")
      case False
      then show ?thesis using A r renormalize_sum [of "preds[i := 0]" ps] by simp
    next
      case True
      show ?thesis
      proof (cases "int (length astring) = max_len config")
        case True
        then show ?thesis
          using B \<open>pwd_answer f astring\<close> r sum_list_end_only [OF distinct_ctable_chars mem] assms(2)
          by (simp add: end_only_def)
      next
        case False
        then show ?thesis using C \<open>pwd_answer f astring\<close> r renormalize_sum [of preds ps] by simp
      qed
    qed
  qed
  show ?thesis using i il A B C D E by blast
qed


theorem C7_relevel_prediction_witness:
  "PASSWORD_END \<in> set (char_bag scenario_config)
   \<and> length [1 / 2, 1 / 4, 1 / 4 :: real] = length (ctable_chars scenario_config)
   \<and> index_of (ctable_chars scenario_config) PASSWORD_END = Some 0
   \<and> \<not> pwd_answer (new_Filterer scenario_config) []
   \<and> fst (relevel_prediction scenario_config (new_Filterer scenario_config)
             [1 / 2, 1 / 4, 1 / 4] []) = Inr (Probs [0, 1 / 2, 1 / 2])
   \<and> pwd_answer (new_Filterer scenario_config) ''ab''
   \<and> fst (relevel_prediction scenario_config (new_Filterer scenario_config)
             [1 / 2, 1 / 4, 1 / 4] ''ab'') = Inr (Probs [1, 0, 0])
   \<and> pwd_answer (new_Filterer scenario_config) ''a''
   \<and> fst (relevel_prediction scenario_config (new_Filterer scenario_config)
             [1 / 2, 1 / 4, 1 / 4] ''a'') = Inr (Probs [1 / 2, 1 / 4, 1 / 4])"
proof -
  have h1: "PASSWORD_END \<in> set (char_bag scenario_config)"
    by (simp add: scenario_config_def)
  have h2: "length [1 / 2, 1 / 4, 1 / 4 :: real] = length (ctable_chars scenario_config)"
    by code_simp
  have i: "index_of (ctable_chars scenario_config) PASSWORD_END = Some 0"
    by code_simp
  have v0: "\<not> pwd_answer (new_Filterer scenario_config) []"
    by code_simp
  have v1: "pwd_answer (new_Filterer scenario_config) ''a''"
    by code_simp
  have v2: "pwd_answer (new_Filterer scenario_config) ''ab''"
    by code_simp
  have l2: "int (length ''ab'') = max_len scenario_config"
    by (simp add: scenario_config_def)
  have l1: "int (length ''a'') \<noteq> max_len scenario_config"
    by (simp add: scenario_config_def)
  have r0: "renormalize ([1 / 2, 1 / 4, 1 / 4][0 := 0]) = Probs [0, 1 / 2, 1 / 2]"
    by (simp add: renormalize_def Let_def)
  have r1: "renormalize [1 / 2, 1 / 4, 1 / 4] = Probs [1 / 2, 1 / 4, 1 / 4]"
    by (simp add: renormalize_def Let_def)
  have e: "end_only (ctable_chars scenario_config) = [1, 0, 0]"
    by code_simp
  show ?thesis
    using C7_relevel_prediction [OF h1 h2, of "new_Filterer scenario_config" "[]"]
      C7_relevel_prediction [OF h1 h2, of "new_Filterer scenario_config" "''a''"]
      C7_relevel_prediction [OF h1 h2, of "new_Filterer scenario_config" "''ab''"]
      h1 h2 i v0 v1 v2 l1 l2 r0 r1 e
    by simp
qed

text \<open>
  The claim as stated fails where it promises a distribution in all cases: for the
  empty prefix, which is shorter than the minimum length and so invalid, and a
  prediction with all its mass on the end marker, the forced vector is all zero and the
  division by its sum produces no distribution.
\<close>

theorem C7_all_mass_on_end_marker:
  "fst (relevel_prediction scenario_config (new_Filterer scenario_config) [1, 0, 0] []) =
     Inr NotFinite"
  by code_simp

section \<open>The trie: the entries that \<open>random_iterate\<close> yields\<close>

lemma wf_empty [simp]: "wf_trie empty_trie"
  by (simp add: empty_trie_def)

lemma wf_get_node: "wf_trie (NodeTrie w ns) \<Longrightarrow> wf_trie (get_node ns c)"
  by (auto simp: get_node_def split: option.splits dest!: map_of_SomeD)

lemma set_alist_update: "set (AList.update k v al) \<subseteq> insert (k, v) (set al)"
  by (induction al) auto

lemma wf_increment_loop: "wf_trie t \<Longrightarrow> wf_trie (increment_loop t k wt)"
proof (induction k arbitrary: t)
  case Nil
  then show ?case by (cases t) simp
next
  case (Cons c cs)
  obtain w ns where t: "t = NodeTrie w ns" by (cases t)
  have child: "wf_trie (increment_loop (get_node ns c) cs wt)"
    using Cons.prems t by (intro Cons.IH wf_get_node) simp
  have "distinct (map fst (AList.update c (increment_loop (get_node ns c) cs wt) ns))"
    using Cons.prems t by (simp add: distinct_update)
  moreover have "\<forall>kn \<in> set (AList.update c (increment_loop (get_node ns c) cs wt) ns).
      wf_trie (snd kn)"
    using Cons.prems t child
      set_alist_update [of c "increment_loop (get_node ns c) cs wt" ns]
    by auto
  ultimately show ?case using t by simp
qed

lemma wf_increment: "wf_trie t \<Longrightarrow> wf_trie (increment t k wt)"
  by (cases t) (simp add: increment_def increment_optimized_def wf_increment_loop)

lemma wf_increment_all: "wf_trie t \<Longrightarrow> wf_trie (increment_all t incs)"
  by (induction incs arbitrary: t) (simp_all add: increment_all_def wf_increment)

lemma wf_trie_of: "wf_trie (trie_of incs)"
  by (simp add: trie_of_def wf_increment_all)

lemma lookup_increment_loop:
  "lookup (increment_loop t k wt) p = None \<longleftrightarrow> lookup t p = None \<and> \<not> prefix p k"
proof (induction k arbitrary: t p)
  case Nil
  then show ?case by (cases t; cases p) (auto split: option.splits)
next
  case (Cons c cs)
  obtain w ns where t: "t = NodeTrie w ns" by (cases t)
  show ?case
  proof (cases p)
    case Nil
    then show ?thesis by simp
  next
    case p: (Cons d ps)
    show ?thesis
    proof (cases "d = c")
      case True
      have e: "lookup (get_node ns c) ps = None \<longleftrightarrow> lookup t (c # ps) = None \<and> ps \<noteq> []"
        using t by (cases ps) (auto simp: get_node_def empty_trie_def split: option.splits)
      show ?thesis
        using t p True Cons.IH [of "get_node ns c" ps] e
        by (auto simp: update_conv')
    next
      case False
      then show ?thesis using t p by (simp add: update_conv')
    qed
  qed
qed

lemma lookup_increment:
  "lookup (increment t k wt) p = None \<longleftrightarrow> lookup t p = None \<and> \<not> prefix p k"
proof -
  have "lookup (NodeTrie (weight t + wt) (nodes t)) p = None \<longleftrightarrow> lookup t p = None"
    by (cases t; cases p) simp_all
  then show ?thesis
    by (simp add: increment_def increment_optimized_def lookup_increment_loop)
qed

lemma lookup_increment_all:
  "lookup (increment_all t incs) p = None \<longleftrightarrow>
     lookup t p = None \<and> (\<forall>kw \<in> set incs. \<not> prefix p (fst kw))"
  by (induction incs arbitrary: t) (auto simp: increment_all_def lookup_increment)

lemma lookup_trie_of:
  "lookup (trie_of incs) p = None \<longleftrightarrow> p \<noteq> [] \<and> (\<forall>kw \<in> set incs. \<not> prefix p (fst kw))"
proof -
  have "lookup empty_trie p = None \<longleftrightarrow> p \<noteq> []"
    by (cases p) (simp_all add: empty_trie_def)
  then show ?thesis by (simp add: trie_of_def lookup_increment_all)
qed

lemma weight_at_child:
  "distinct (map fst ns) \<Longrightarrow> (k, child) \<in> set ns \<Longrightarrow>
   weight_at (NodeTrie w ns) (k # p) = weight_at child p"
  by (simp add: weight_at_def)

lemma random_iterate_paths:
  "wf_trie t \<Longrightarrow>
   random_iterate t cur =
     (if cur \<noteq> [] then [(cur, weight t)] else []) @
     map (\<lambda>p. (cur @ p, weight_at t p)) (tl (paths t))"
proof (induction t cur rule: random_iterate.induct)
  case (1 w ns cur)
  have child: "random_iterate (snd kn) (cur @ [fst kn]) =
      map (\<lambda>p. (cur @ p, weight_at (NodeTrie w ns) p)) (map ((#) (fst kn)) (paths (snd kn)))"
    if kn: "kn \<in> set ns" for kn
  proof -
    obtain k child where kc: "kn = (k, child)" by (cases kn)
    have wfc: "wf_trie child" using "1.prems" kn kc by auto
    have ps: "paths child = [] # tl (paths child)" by (cases child) simp
    have wa: "weight_at (NodeTrie w ns) (k # p) = weight_at child p" for p
      using "1.prems" kn kc by (intro weight_at_child) auto
    have "random_iterate child (cur @ [k]) =
        (cur @ [k], weight child) # map (\<lambda>p. ((cur @ [k]) @ p, weight_at child p)) (tl (paths child))"
      using "1.IH" [OF kn] wfc kc by simp
    also have "\<dots> = map (\<lambda>p. (cur @ k # p, weight_at child p)) ([] # tl (paths child))"
      by (simp add: weight_at_def)
    also have "\<dots> = map (\<lambda>p. (cur @ k # p, weight_at child p)) (paths child)"
      using ps by simp
    finally show ?thesis using kc wa by (simp add: comp_def)
  qed
  have "concat (map (\<lambda>kn. random_iterate (snd kn) (cur @ [fst kn])) ns) =
      concat (map (\<lambda>kn. map (\<lambda>p. (cur @ p, weight_at (NodeTrie w ns) p))
                (map ((#) (fst kn)) (paths (snd kn)))) ns)"
    using child by (intro arg_cong [where f = concat] map_cong) simp_all
  also have "\<dots> = map (\<lambda>p. (cur @ p, weight_at (NodeTrie w ns) p))
      (concat (map (\<lambda>kn. map ((#) (fst kn)) (paths (snd kn))) ns))"
    by (simp add: map_concat comp_def)
  finally show ?case by simp
qed

lemma paths_lookup: "wf_trie t \<Longrightarrow> p \<in> set (paths t) \<longleftrightarrow> lookup t p \<noteq> None"
proof (induction t arbitrary: p rule: paths.induct)
  case (1 w ns)
  show ?case
  proof (cases p)
    case Nil
    then show ?thesis by simp
  next
    case (Cons k ps)
    have "p \<in> set (paths (NodeTrie w ns)) \<longleftrightarrow>
        (\<exists>kn \<in> set ns. fst kn = k \<and> ps \<in> set (paths (snd kn)))"
      using Cons by auto
    also have "\<dots> \<longleftrightarrow> (\<exists>kn \<in> set ns. fst kn = k \<and> lookup (snd kn) ps \<noteq> None)"
      using "1.IH" "1.prems" by auto
    also have "\<dots> \<longleftrightarrow> (\<exists>child. map_of ns k = Some child \<and> lookup child ps \<noteq> None)"
      using "1.prems" by (simp add: map_of_eq_Some_iff) force
    also have "\<dots> \<longleftrightarrow> lookup (NodeTrie w ns) p \<noteq> None"
      using Cons by (auto split: option.splits)
    finally show ?thesis .
  qed
qed

lemma distinct_paths: "wf_trie t \<Longrightarrow> distinct (paths t)"
proof (induction t rule: paths.induct)
  case (1 w ns)
  have d: "distinct (map fst ns)" and wfc: "\<forall>kn \<in> set ns. wf_trie (snd kn)"
    using "1.prems" by auto
  have "distinct (concat (map (\<lambda>kn. map ((#) (fst kn)) (paths (snd kn))) ns))"
  proof (rule distinct_concat)
    show "distinct (map (\<lambda>kn. map ((#) (fst kn)) (paths (snd kn))) ns)"
    proof -
      have "inj_on (\<lambda>kn. map ((#) (fst kn)) (paths (snd kn))) (set ns)"
      proof (rule inj_onI)
        fix a b
        assume a: "a \<in> set ns" and b: "b \<in> set ns"
          and e: "map ((#) (fst a)) (paths (snd a)) = map ((#) (fst b)) (paths (snd b))"
        have "paths (snd a) \<noteq> []" by (cases "snd a") simp
        then obtain q qs where "paths (snd a) = q # qs" by (cases "paths (snd a)") auto
        with e have "fst a = fst b" by (cases "paths (snd b)") auto
        then show "a = b" using d a b by (metis eq_key_imp_eq_value prod.collapse)
      qed
      moreover have "distinct ns" using d by (simp add: distinct_map)
      ultimately show ?thesis by (simp add: distinct_map)
    qed
  next
    fix ys
    assume "ys \<in> set (map (\<lambda>kn. map ((#) (fst kn)) (paths (snd kn))) ns)"
    then show "distinct ys" using "1.IH" wfc by (auto simp: distinct_map)
  next
    fix ys zs
    assume "ys \<in> set (map (\<lambda>kn. map ((#) (fst kn)) (paths (snd kn))) ns)"
      "zs \<in> set (map (\<lambda>kn. map ((#) (fst kn)) (paths (snd kn))) ns)" "ys \<noteq> zs"
    then obtain a b where a: "a \<in> set ns" "ys = map ((#) (fst a)) (paths (snd a))"
      and b: "b \<in> set ns" "zs = map ((#) (fst b)) (paths (snd b))" by auto
    with \<open>ys \<noteq> zs\<close> have "a \<noteq> b" by auto
    then have "fst a \<noteq> fst b" using d a(1) b(1) by (metis eq_key_imp_eq_value prod.collapse)
    then show "set ys \<inter> set zs = {}" using a(2) b(2) by auto
  qed
  then show ?case by auto
qed

lemma iterate_paths:
  "wf_trie t \<Longrightarrow> iterate t = map (\<lambda>p. (p, weight_at t p)) (tl (paths t))"
  by (simp add: iterate_def random_iterate_paths)

lemma set_tl_paths:
  "wf_trie t \<Longrightarrow> set (tl (paths t)) = {p. p \<noteq> [] \<and> lookup t p \<noteq> None}"
proof -
  assume wf: "wf_trie t"
  have ps: "paths t = [] # tl (paths t)" by (cases t) simp
  have "distinct (paths t)" using wf by (rule distinct_paths)
  then have "[] \<notin> set (tl (paths t))" using ps by (metis distinct.simps(2))
  moreover have "set (paths t) = insert [] (set (tl (paths t)))" using ps by (metis list.simps(15))
  ultimately show ?thesis using paths_lookup [OF wf] by auto
qed

lemma distinct_tl_paths: "wf_trie t \<Longrightarrow> distinct (tl (paths t))"
  using distinct_paths distinct_tl by blast

lemma iterate_trie_of:
  "iterate (trie_of incs) = map (\<lambda>p. (p, prefix_weight incs p)) (tl (paths (trie_of incs)))"
proof -
  have "[] \<notin> set (tl (paths (trie_of incs)))"
    using set_tl_paths [OF wf_trie_of, of incs] by auto
  then have "map (\<lambda>p. (p, weight_at (trie_of incs) p)) (tl (paths (trie_of incs))) =
      map (\<lambda>p. (p, prefix_weight incs p)) (tl (paths (trie_of incs)))"
    by (intro map_cong) (auto simp: weight_at_trie_of)
  then show ?thesis by (simp add: iterate_paths wf_trie_of)
qed

lemma set_paths_trie_of:
  "set (tl (paths (trie_of incs))) = {p. p \<noteq> [] \<and> (\<exists>kw \<in> set incs. prefix p (fst kw))}"
  using set_tl_paths [OF wf_trie_of, of incs] by (auto simp: lookup_trie_of)

lemma iterate_trie_of_entry:
  "(p, w) \<in> set (iterate (trie_of incs)) \<longleftrightarrow>
     p \<noteq> [] \<and> (\<exists>kw \<in> set incs. prefix p (fst kw)) \<and> w = prefix_weight incs p"
  using set_paths_trie_of [of incs] by (auto simp: iterate_trie_of)

lemma distinct_iterate_trie_of: "distinct (map fst (iterate (trie_of incs)))"
  by (simp add: iterate_trie_of comp_def distinct_tl_paths wf_trie_of)


section \<open>The binary codec: writing and reading back\<close>



lemma length_le_bytes [simp]: "length (le_bytes k n) = k"
  by (induction k arbitrary: n) simp_all

lemma le_int_le_bytes: "0 \<le> n \<Longrightarrow> n < 256 ^ k \<Longrightarrow> le_int (le_bytes k n) = n"
proof (induction k arbitrary: n)
  case 0
  then show ?case by simp
next
  case (Suc k)
  have "n div 256 < 256 ^ k" using Suc.prems by simp
  then have "le_int (le_bytes k (n div 256)) = n div 256"
    using Suc.prems by (intro Suc.IH) simp_all
  moreover have "uint (word_of_int n :: byte) = n mod 256"
    by (simp add: uint_word_of_int)
  ultimately show ?case by simp
qed

lemma uint_byte_of_nat: "n \<le> 255 \<Longrightarrow> uint (word_of_nat n :: byte) = int n"
proof -
  assume n: "n \<le> 255"
  have "unat (word_of_nat n :: byte) = n mod 2 ^ LENGTH(8)" by (rule unat_of_nat)
  then have "unat (word_of_nat n :: byte) = n" using n by simp
  then show ?thesis by (simp add: uint_nat del: of_nat_unat)
qed

lemma pack_uint_length: "pack_uint k n = Inr bs \<Longrightarrow> length bs = k"
  by (auto simp: pack_uint_def split: if_splits)

lemma unpack_pack_uint: "pack_uint k n = Inr bs \<Longrightarrow> unpack_uint k bs = Inr n"
  by (auto simp: pack_uint_def unpack_uint_def le_int_le_bytes split: if_splits)

lemma pack_QQ_length: "pack_QQ a b = Inr bs \<Longrightarrow> length bs = 16"
  by (auto simp: pack_QQ_def dest!: pack_uint_length split: sum.splits)

lemma unpack_pack_QQ: "pack_QQ a b = Inr bs \<Longrightarrow> unpack_QQ bs = Inr (a, b)"
  by (auto simp: pack_QQ_def unpack_QQ_def pack_uint_def le_int_le_bytes split: sum.splits if_splits)

lemma pack_QQ_range: "pack_QQ a b = Inr bs \<Longrightarrow> 0 \<le> a \<and> 0 \<le> b"
  by (auto simp: pack_QQ_def pack_uint_def split: sum.splits if_splits)

text \<open>Reading a block of bytes that lies at the position of the handle.\<close>

lemma read_block:
  "drop (pos f) (data f) = bs @ rest \<Longrightarrow> read f (length bs) = (bs, f\<lparr>pos := pos f + length bs\<rparr>)"
  by (simp add: read_def)

lemma drop_after_block:
  "drop (pos f) (data f) = bs @ rest \<Longrightarrow> drop (pos f + length bs) (data f) = rest"
  by (metis add.commute append_eq_conv_conj drop_drop)

lemma write_string_shape:
  "write_string enc s = Inr sb \<Longrightarrow>
   \<exists>raw. enc s = Some raw \<and> length raw \<le> 255 \<and> sb = word_of_int (int (length raw)) # raw"
  by (auto simp: write_string_def pack_uint_def split: option.splits sum.splits if_splits)

lemma read_string_written:
  assumes "text_codec enc dec" "write_string enc s = Inr sb"
    and "drop (pos f) (data f) = sb @ rest"
  shows "read_string dec f = Inr (Some s, f\<lparr>pos := pos f + length sb\<rparr>)"
proof -
  obtain raw where raw: "enc s = Some raw" "length raw \<le> 255"
    "sb = word_of_int (int (length raw)) # raw"
    using write_string_shape [OF assms(2)] by blast
  let ?lb = "[word_of_int (int (length raw)) :: byte]"
  have d1: "drop (pos f) (data f) = ?lb @ (raw @ rest)" using assms(3) raw(3) by simp
  have r1: "read f 1 = (?lb, f\<lparr>pos := pos f + 1\<rparr>)"
    using read_block [OF d1] by simp
  have u: "unpack_uint 1 ?lb = Inr (int (length raw))"
    using raw(2) by (simp add: unpack_uint_def uint_byte_of_nat)
  let ?f1 = "f\<lparr>pos := pos f + 1\<rparr>"
  have "drop (pos ?f1) (data ?f1) = raw @ rest"
    using drop_after_block [OF d1] by simp
  then have r2: "read ?f1 (length raw) = (raw, ?f1\<lparr>pos := pos ?f1 + length raw\<rparr>)"
    by (rule read_block)
  have "dec raw = Some s" using assms(1) raw(1) by (simp add: text_codec_def)
  then show ?thesis using r1 u r2 raw(3) by (simp add: read_string_def)
qed

lemma read_record_written:
  assumes "text_codec enc dec" "value_codec wv rv"
    and "write_record enc wv pwd val = Inr bs"
    and "drop (pos f) (data f) = bs @ rest"
  shows "read_record dec rv f = Inr (Some (pwd, val), f\<lparr>pos := pos f + length bs\<rparr>)"
proof -
  obtain sb vb where w: "write_string enc pwd = Inr sb" "wv val = Inr vb" "bs = sb @ vb"
    using assms(3) by (auto simp: write_record_def split: sum.splits)
  have d: "drop (pos f) (data f) = sb @ (vb @ rest)" using assms(4) w(3) by simp
  have rs: "read_string dec f = Inr (Some pwd, f\<lparr>pos := pos f + length sb\<rparr>)"
    using assms(1) w(1) d by (rule read_string_written)
  let ?f1 = "f\<lparr>pos := pos f + length sb\<rparr>"
  have "drop (pos ?f1) (data ?f1) = vb @ rest" using drop_after_block [OF d] by simp
  moreover have "rv (vb @ rest) = Inr (val, length vb)"
    using assms(2) w(2) by (simp add: value_codec_def)
  ultimately show ?thesis using rs w(3) by (simp add: read_record_def add.assoc)
qed

lemma write_record_nonempty: "write_record enc wv pwd val = Inr bs \<Longrightarrow> bs \<noteq> []"
  by (auto simp: write_record_def dest!: write_string_shape split: sum.splits)

text \<open>The records of a list of items, one block of bytes each.\<close>

lemma deserialize_loop_written:
  assumes "text_codec enc dec" "value_codec wv rv"
  shows "written enc wv items bss \<Longrightarrow>
     drop (pos f) (data f) = concat bss @ rest \<Longrightarrow> n \<le> length items \<Longrightarrow>
     deserialize_loop dec rv n f = (take n items, Exhausted)"
proof (induction n arbitrary: items bss f)
  case 0
  then show ?case by simp
next
  case (Suc n)
  then obtain item items' where items: "items = item # items'" by (cases items) auto
  then obtain bs bss' where bss: "bss = bs # bss'"
    and w: "write_record enc wv (fst item) (snd item) = Inr bs"
    and rest: "written enc wv items' bss'"
    using Suc.prems(1) by (auto simp: written_def list_all2_Cons1)
  have d: "drop (pos f) (data f) = bs @ (concat bss' @ rest)" using Suc.prems(2) bss by simp
  let ?f1 = "f\<lparr>pos := pos f + length bs\<rparr>"
  have r: "read_record dec rv f = Inr (Some item, ?f1)"
    using read_record_written [OF assms w d] by simp
  have "drop (pos ?f1) (data ?f1) = concat bss' @ rest" using drop_after_block [OF d] by simp
  then have "deserialize_loop dec rv n ?f1 = (take n items', Exhausted)"
    using Suc.IH [OF rest, of ?f1] Suc.prems(3) items by simp
  then show ?case using r items by (simp add: yield_def)
qed


lemma written_Nil [simp]: "written enc wv [] bss \<longleftrightarrow> bss = []"
  by (simp add: written_def)

lemma written_length: "written enc wv items bss \<Longrightarrow> length bss = length items"
  by (simp add: written_def list_all2_lengthD)

lemma update_new_key: "k \<notin> fst ` set al \<Longrightarrow> AList.update k v al = al @ [(k, v)]"
  by (induction al) auto

lemma serialize_loop_shape:
  "serialize_loop enc wv tcs items st = Inr st' \<Longrightarrow>
   \<forall>k \<in> fst ` set (table_of_contents st). k \<le> records st \<Longrightarrow>
   \<exists>bss. written enc wv items bss \<and>
     content st' = content st @ concat bss \<and>
     records st' = records st + int (length items) \<and>
     table_of_contents st' =
       table_of_contents st @ checkpoints tcs (records st) (length (content st)) bss"
proof (induction items arbitrary: st)
  case Nil
  then show ?case by simp
next
  case (Cons item items)
  from Cons.prems(1) obtain bs where w: "write_record enc wv (fst item) (snd item) = Inr bs"
    by (auto split: sum.splits)
  define st1 where "st1 = st\<lparr>content := content st @ bs, records := records st + 1\<rparr>"
  define st2 where "st2 = (if records st1 mod tcs = 0
       then st1\<lparr>table_of_contents :=
               AList.update (records st1) (int (length (content st1))) (table_of_contents st1)\<rparr>
       else st1)"
  have run: "serialize_loop enc wv tcs items st2 = Inr st'"
    using Cons.prems(1) w by (simp add: st1_def st2_def Let_def split: if_splits)
  have new: "records st1 \<notin> fst ` set (table_of_contents st1)"
    using Cons.prems(2) by (fastforce simp: st1_def)
  have toc2: "table_of_contents st2 = table_of_contents st @
      (if (records st + 1) mod tcs = 0 then [(records st + 1, int (length (content st) + length bs))]
       else [])"
    using update_new_key [OF new] by (simp add: st2_def) (simp add: st1_def)
  have c2: "content st2 = content st @ bs" and r2: "records st2 = records st + 1"
    by (simp_all add: st2_def st1_def)
  have bound: "\<forall>k \<in> fst ` set (table_of_contents st2). k \<le> records st2"
    using Cons.prems(2) by (auto simp: toc2 r2 split: if_splits)
  from Cons.IH [OF run bound] obtain bss where bss: "written enc wv items bss"
    "content st' = content st2 @ concat bss"
    "records st' = records st2 + int (length items)"
    "table_of_contents st' =
       table_of_contents st2 @ checkpoints tcs (records st2) (length (content st2)) bss"
    by blast
  have "written enc wv (item # items) (bs # bss)"
    using w bss(1) by (simp add: written_def)
  moreover have "content st' = content st @ concat (bs # bss)" using bss(2) c2 by simp
  moreover have "records st' = records st + int (length (item # items))"
    using bss(3) r2 by simp
  moreover have "table_of_contents st' =
       table_of_contents st @ checkpoints tcs (records st) (length (content st)) (bs # bss)"
    using bss(4) toc2 c2 r2 by simp
  ultimately show ?case by blast
qed

lemma checkpoints_keys:
  "(k, v) \<in> set (checkpoints tcs r off bss) \<Longrightarrow> r < k"
  by (induction bss arbitrary: r off) (fastforce split: if_splits)+

lemma checkpoints_sorted: "sorted (map fst (checkpoints tcs r off bss))"
proof (induction bss arbitrary: r off)
  case Nil
  then show ?case by simp
next
  case (Cons bs bss)
  have "\<forall>kv \<in> set (checkpoints tcs (r + 1) (off + length bs) bss). r + 1 \<le> fst kv"
    using checkpoints_keys [of _ _ tcs "r + 1" "off + length bs" bss] by force
  then show ?case using Cons.IH [of "r + 1" "off + length bs"] by (auto simp: sorted_append)
qed


lemma sort_key_checkpoints:
  "sort_key fst (checkpoints tcs r off bss) = checkpoints tcs r off bss"
  by (rule sort_key_id_if_sorted) (rule checkpoints_sorted)



text \<open>The file that \<open>do_serialize\<close> produces: header, records, table of contents.\<close>

lemma do_serialize_shape:
  assumes "do_serialize enc wv tcs items = Inr file"
  shows "\<exists>bss header tb. written enc wv items bss \<and>
      file = header @ concat bss @ tb \<and>
      pack_QQ (int (length items)) (int (fmt_size + length (concat bss))) = Inr header \<and>
      write_toc (checkpoints tcs 0 fmt_size bss) = Inr tb"
proof -
  from assms obtain header0 st tb header where
    h0: "pack_QQ 0 0 = Inr header0"
    and loop: "serialize_loop enc wv tcs items
        \<lparr>content = header0, records = 0, table_of_contents = []\<rparr> = Inr st"
    and tb: "write_toc (sort_key fst (table_of_contents st)) = Inr tb"
    and hd: "pack_QQ (records st) (int (length (content st))) = Inr header"
    and fl: "file = header @ drop (length header) (content st @ tb)"
    by (auto simp: do_serialize_def Let_def split: sum.splits if_splits)
  have l0: "length header0 = fmt_size" using pack_QQ_length [OF h0] by (simp add: fmt_size_def)
  from serialize_loop_shape [OF loop] obtain bss where bss: "written enc wv items bss"
    "content st = header0 @ concat bss" "records st = int (length items)"
    "table_of_contents st = checkpoints tcs 0 fmt_size bss"
    using l0 by auto
  have lh: "length header = length header0"
    using pack_QQ_length [OF hd] pack_QQ_length [OF h0] by simp
  have "file = header @ concat bss @ tb" using fl bss(2) lh by simp
  moreover have "pack_QQ (int (length items)) (int (fmt_size + length (concat bss))) = Inr header"
    using hd bss(2,3) l0 by simp
  moreover have "write_toc (checkpoints tcs 0 fmt_size bss) = Inr tb"
    using tb bss(4) by (simp add: sort_key_checkpoints)
  ultimately show ?thesis using bss(1) by blast
qed

lemma deserialize_produced:
  assumes "text_codec enc dec" "value_codec wv rv"
    and "written enc wv items bss"
    and "pack_QQ (int (length items)) t = Inr header"
  shows "deserialize dec rv (header @ concat bss @ tb) = (items, Exhausted)"
proof -
  let ?file = "header @ concat bss @ tb"
  have l: "length header = fmt_size"
    using pack_QQ_length [OF assms(4)] by (simp add: fmt_size_def)
  have "drop (pos (open_file ?file)) (data (open_file ?file)) = header @ (concat bss @ tb)"
    by (simp add: open_file_def)
  from read_block [OF this]
  have r: "read (open_file ?file) fmt_size = (header, \<lparr>data = ?file, pos = fmt_size\<rparr>)"
    using l by (simp add: open_file_def)
  have u: "unpack_QQ header = Inr (int (length items), t)"
    using assms(4) by (rule unpack_pack_QQ)
  let ?f1 = "\<lparr>data = ?file, pos = fmt_size\<rparr>"
  have "drop (pos ?f1) (data ?f1) = concat bss @ tb" using l by simp
  then have "deserialize_loop dec rv (length items) ?f1 = (take (length items) items, Exhausted)"
    using assms(1,2,3) by (intro deserialize_loop_written) simp_all
  then show ?thesis using r u by (simp add: deserialize_def)
qed








lemma deserialize_do_serialize:
  assumes "text_codec enc dec" "value_codec wv rv"
    and "do_serialize enc wv tcs items = Inr file"
  shows "deserialize dec rv file = (items, Exhausted)"
proof -
  from do_serialize_shape [OF assms(3)] obtain bss header tb where
    bss: "written enc wv items bss" and fl: "file = header @ concat bss @ tb"
    and hd: "pack_QQ (int (length items)) (int (fmt_size + length (concat bss))) = Inr header"
    by blast
  show ?thesis unfolding fl using assms(1,2) bss hd by (rule deserialize_produced)
qed

lemma value_codec_node: "value_codec node_write_value node_read_value"
  by (auto simp: value_codec_def node_write_value_def node_read_value_def pack_uint_def
      le_int_le_bytes split: if_splits)

lemma char_of_byte: "char_of (unat (word_of_nat (of_char c) :: byte)) = c"
proof -
  have "unat (word_of_nat (of_char c) :: byte) = of_char c mod 2 ^ LENGTH(8)"
    by (rule unat_of_nat)
  also have "\<dots> = of_char c" by simp
  finally show ?thesis by simp
qed

lemma text_codec_latin1: "text_codec latin1_encode latin1_decode"
  by (auto simp: text_codec_def latin1_encode_def latin1_decode_def char_of_byte
      intro!: nth_equalityI)

lemma read_data [simp]: "data (snd (read f n)) = data f"
  by (simp add: read_def Let_def)







text \<open>When \<open>do_serialize\<close> succeeds.\<close>

lemma serialize_loop_succeeds:
  "written enc wv items bss \<Longrightarrow> tcs \<noteq> 0 \<Longrightarrow> \<exists>st'. serialize_loop enc wv tcs items st = Inr st'"
proof (induction items arbitrary: bss st)
  case Nil
  then show ?case by simp
next
  case (Cons item items)
  then obtain bs bss' where "write_record enc wv (fst item) (snd item) = Inr bs"
    "written enc wv items bss'"
    by (auto simp: written_def list_all2_Cons1)
  then show ?case using Cons.IH [of bss'] Cons.prems(2) by (simp add: Let_def)
qed

lemma write_toc_succeeds:
  "\<forall>kv \<in> set toc. 0 \<le> fst kv \<and> fst kv < 2 ^ 64 \<and> 0 \<le> snd kv \<and> snd kv < 2 ^ 64 \<Longrightarrow>
   \<exists>tb. write_toc toc = Inr tb"
proof (induction toc)
  case Nil
  then show ?case by simp
next
  case (Cons kv toc)
  then obtain tb where "write_toc toc = Inr tb" by auto
  moreover have "\<exists>bs. pack_QQ (fst kv) (snd kv) = Inr bs"
    using Cons.prems by (simp add: pack_QQ_def pack_uint_def)
  ultimately show ?case by auto
qed

lemma checkpoints_bounds:
  "kv \<in> set (checkpoints tcs r off bss) \<Longrightarrow>
   r < fst kv \<and> fst kv \<le> r + int (length bss) \<and>
   int off \<le> snd kv \<and> snd kv \<le> int (off + length (concat bss))"
proof (induction bss arbitrary: r off)
  case Nil
  then show ?case by simp
next
  case (Cons bs bss)
  show ?case
  proof (cases "kv \<in> set (checkpoints tcs (r + 1) (off + length bs) bss)")
    case True
    from Cons.IH [OF this] show ?thesis by simp
  next
    case False
    then have "kv = (r + 1, int (off + length bs))"
      using Cons.prems by (auto split: if_splits)
    then show ?thesis by simp
  qed
qed

lemma written_count: "written enc wv items bss \<Longrightarrow> length items \<le> length (concat bss)"
proof (induction items arbitrary: bss)
  case Nil
  then show ?case by simp
next
  case (Cons item items)
  then obtain bs bss' where b: "bss = bs # bss'"
    "write_record enc wv (fst item) (snd item) = Inr bs" "written enc wv items bss'"
    by (auto simp: written_def list_all2_Cons1)
  have "bs \<noteq> []" using b(2) by (rule write_record_nonempty)
  then have "1 \<le> length bs" by (cases bs) simp_all
  then show ?case using Cons.IH [OF b(3)] b(1) by simp
qed

lemma do_serialize_succeeds:
  assumes "written enc wv items bss" "tcs \<noteq> 0" "fmt_size + length (concat bss) < 2 ^ 64"
  shows "\<exists>file. do_serialize enc wv tcs items = Inr file"
proof -
  have h0: "pack_QQ 0 0 = Inr (le_bytes 8 0 @ le_bytes 8 0)"
    by (simp add: pack_QQ_def pack_uint_def)
  let ?h0 = "le_bytes 8 0 @ le_bytes 8 0"
  let ?st0 = "\<lparr>content = ?h0, records = 0, table_of_contents = []\<rparr>"
  obtain st where loop: "serialize_loop enc wv tcs items ?st0 = Inr st"
    using serialize_loop_succeeds [OF assms(1,2)] by blast
  from serialize_loop_shape [OF loop] obtain bss' where bss': "written enc wv items bss'"
    "content st = ?h0 @ concat bss'" "records st = int (length items)"
    "table_of_contents st = checkpoints tcs 0 fmt_size bss'"
    by (auto simp: fmt_size_def)
  have "bss' = bss"
    using bss'(1) assms(1) unfolding written_def
    by (induction items arbitrary: bss bss') (auto simp: list_all2_Cons1)
  note bss = bss' [unfolded this]
  have size: "int (length (content st)) = int (fmt_size + length (concat bss))"
    using bss(2) by (simp add: fmt_size_def)
  have n: "length items \<le> length (concat bss)" using assms(1) by (rule written_count)
  have lb: "length bss = length items" using assms(1) by (rule written_length)
  have "\<forall>kv \<in> set (checkpoints tcs 0 fmt_size bss).
      0 \<le> fst kv \<and> fst kv < 2 ^ 64 \<and> 0 \<le> snd kv \<and> snd kv < 2 ^ 64"
  proof
    fix kv
    assume "kv \<in> set (checkpoints tcs 0 fmt_size bss)"
    from checkpoints_bounds [OF this] show
      "0 \<le> fst kv \<and> fst kv < 2 ^ 64 \<and> 0 \<le> snd kv \<and> snd kv < 2 ^ 64"
      using assms(3) n lb by auto
  qed
  then obtain tb where tb: "write_toc (checkpoints tcs 0 fmt_size bss) = Inr tb"
    using write_toc_succeeds by blast
  have "\<exists>header. pack_QQ (records st) (int (length (content st))) = Inr header"
    using bss(3) size n assms(3) by (simp add: pack_QQ_def pack_uint_def)
  then obtain header where hd: "pack_QQ (records st) (int (length (content st))) = Inr header"
    by blast
  have pos: "int (length (content st)) > 0" using size by (simp add: fmt_size_def)
  show ?thesis
    using h0 loop tb hd pos bss(4)
    by (simp add: do_serialize_def Let_def sort_key_checkpoints)
qed

lemma node_records_written:
  "\<forall>item \<in> set items. (\<exists>raw. enc (fst item) = Some raw \<and> length raw \<le> 255) \<and>
      0 \<le> snd item \<and> snd item < 2 ^ 64 \<Longrightarrow>
   \<exists>bss. written enc node_write_value items bss \<and> length (concat bss) \<le> 264 * length items"
proof (induction items)
  case Nil
  then show ?case by simp
next
  case (Cons item items)
  then obtain bss where bss: "written enc node_write_value items bss"
    "length (concat bss) \<le> 264 * length items" by auto
  from Cons.prems obtain raw where raw: "enc (fst item) = Some raw" "length raw \<le> 255"
    and w: "0 \<le> snd item" "snd item < 2 ^ 64" by auto
  let ?bs = "(word_of_int (int (length raw)) # raw) @ le_bytes 8 (snd item)"
  have "write_record enc node_write_value (fst item) (snd item) = Inr ?bs"
    using raw w by (simp add: write_record_def write_string_def node_write_value_def pack_uint_def)
  then have "written enc node_write_value (item # items) (?bs # bss)"
    using bss(1) by (simp add: written_def)
  moreover have "length (concat (?bs # bss)) \<le> 264 * length (item # items)"
    using bss(2) raw(2) by simp
  ultimately show ?case by blast
qed

section \<open>The binary codec: the example file\<close>


text \<open>With \<open>toc_chunk_size = 2\<close> and five records the table of contents has exactly the
  two checkpoints 2 and 4.\<close>

lemma toc_example_checkpoints:
  "read_toc (open_file toc_example_file) = Inr ([(2, 37), (4, 59)], 70)"
  by code_simp

section \<open>The binary codec: \<open>deserialize\<close>\<close>




section \<open>The binary codec: \<open>random_access\<close>\<close>



text \<open>The encoding of the examples: code points of one, two, three and four bytes.\<close>

lemma utf8_examples:
  "utf8_encode [97, 233, 8364, 128512] = Some [97, 195, 169, 226, 130, 172, 240, 159, 152, 128]"
  "utf8_decode [97, 195, 169, 226, 130, 172, 240, 159, 152, 128] = Some [97, 233, 8364, 128512]"
  "utf8_decode [195] = None" "utf8_decode [192, 128] = None" "utf8_decode [237, 160, 128] = None"
  "utf8_encode [55296] = None"
  by code_simp+


section \<open>The binary codec: round trip of a \<open>NodeTrie\<close>\<close>




section \<open>The partitioned trie: grouped increments\<close>

lemma trie_of_snoc: "trie_of (incs @ [x]) = increment (trie_of incs) (fst x) (snd x)"
  by (simp add: trie_of_def increment_all_def)

lemma remdups_adj_snoc:
  "remdups_adj (xs @ [x]) =
     (if xs \<noteq> [] \<and> last xs = x then remdups_adj xs else remdups_adj xs @ [x])"
  by (induction xs rule: remdups_adj.induct) auto

lemma fork_keys_snoc:
  "fork_keys fl (incs @ [x]) =
     (if incs \<noteq> [] \<and> last (fork_keys fl incs) = slice_to fl (fst x) then fork_keys fl incs
      else fork_keys fl incs @ [slice_to fl (fst x)])"
  by (simp add: fork_keys_def remdups_adj_snoc last_map)

lemma set_fork_keys: "set (fork_keys fl incs) = (\<lambda>kw. slice_to fl (fst kw)) ` set incs"
  by (simp add: fork_keys_def)

lemma fork_keys_Nil [simp]: "fork_keys fl incs = [] \<longleftrightarrow> incs = []"
  by (simp add: fork_keys_def)

lemma grouped_prefix: "grouped fl (incs @ [x]) \<Longrightarrow> grouped fl incs"
  by (auto simp: grouped_def fork_keys_snoc split: if_splits)

lemma grouped_append: "grouped fl (incs @ rest) \<Longrightarrow> grouped fl incs"
proof (cases "incs = []")
  case True
  then show ?thesis by (simp add: grouped_def fork_keys_def)
next
  case False
  assume "grouped fl (incs @ rest)"
  then show ?thesis
    using False
      remdups_adj_append'' [of "map (\<lambda>kw. slice_to fl (fst kw)) incs"
        "map (\<lambda>kw. slice_to fl (fst kw)) rest"]
    by (simp add: grouped_def fork_keys_def)
qed

text \<open>In a grouped sequence the partition of a key is complete when another key follows.\<close>

lemma grouped_closed:
  assumes g: "grouped fl (incs @ x # rest)" and ne: "incs \<noteq> []"
    and d: "last (fork_keys fl incs) \<noteq> slice_to fl (fst x)"
  shows "partition_incs fl (last (fork_keys fl incs)) (incs @ x # rest) =
         partition_incs fl (last (fork_keys fl incs)) incs"
proof -
  let ?k = "\<lambda>kw. slice_to fl (fst kw)"
  let ?A = "map ?k incs" and ?B = "map ?k (x # rest)"
  have l: "last (fork_keys fl incs) = last ?A" by (simp add: fork_keys_def)
  have "last ?A \<noteq> hd ?B" using d l by simp
  then have "remdups_adj (?A @ ?B) = remdups_adj ?A @ remdups_adj ?B"
    by (intro remdups_adj_append') simp
  moreover have "fork_keys fl (incs @ x # rest) = remdups_adj (?A @ ?B)"
    by (simp add: fork_keys_def)
  ultimately have "distinct (remdups_adj ?A @ remdups_adj ?B)"
    using g by (simp add: grouped_def)
  then have "set ?A \<inter> set ?B = {}" by simp
  moreover have "last ?A \<in> set ?A" using ne by (intro last_in_set) simp
  ultimately have "last ?A \<notin> set ?B" by blast
  then have "filter (\<lambda>kw. ?k kw = last ?A) (x # rest) = []"
    by (force simp: filter_empty_conv)
  then show ?thesis unfolding l partition_incs_def by simp
qed

lemma top_incs_snoc:
  "top_incs fl (incs @ [x]) = top_incs fl incs @ [(slice_to fl (fst x), snd x)]"
  by (simp add: top_incs_def)

lemma partition_incs_snoc:
  "partition_incs fl key (incs @ [x]) =
     partition_incs fl key incs @
     (if slice_to fl (fst x) = key then [(slice_from fl (fst x), snd x)] else [])"
  by (simp add: partition_incs_def)

lemma partition_incs_unseen:
  "key \<notin> set (fork_keys fl incs) \<Longrightarrow> partition_incs fl key incs = []"
  by (auto simp: partition_incs_def set_fork_keys filter_empty_conv)

lemma index_of_last: "distinct xs \<Longrightarrow> xs \<noteq> [] \<Longrightarrow> index_of xs (last xs) = Some (length xs - 1)"
  using index_of_nth [of xs "length xs - 1"] by (simp add: last_conv_nth)

lemma disk_increment_all_append:
  "disk_increment_all ser d (xs @ ys) =
     (case disk_increment_all ser d xs of Inl e \<Rightarrow> Inl e | Inr d1 \<Rightarrow> disk_increment_all ser d1 ys)"
  by (induction xs arbitrary: d) (auto split: sum.splits)

lemma disk_inv_new: "disk_inv ser fl [] (new_DiskBackedTrie fl)"
  by (simp add: disk_inv_def new_DiskBackedTrie_def fork_keys_def top_incs_def trie_of_def
      increment_all_def)

lemma fork_keys_empty [simp]: "fork_keys fl [] = []"
  by (simp add: fork_keys_def)

lemma top_incs_empty [simp]: "top_incs fl [] = []"
  by (simp add: top_incs_def)

lemma nth_neq_last:
  assumes "distinct xs" "i < length xs - 1"
  shows "xs ! i \<noteq> last xs"
proof -
  have ne: "xs \<noteq> []" using assms(2) by auto
  have "xs ! i = xs ! (length xs - 1) \<longleftrightarrow> i = length xs - 1"
    using assms by (intro nth_eq_iff_index_eq) auto
  then show ?thesis using assms(2) ne by (simp add: last_conv_nth)
qed

lemma disk_increment_step:
  assumes ok: "incs \<noteq> [] \<Longrightarrow> last (fork_keys fl incs) \<noteq> slice_to fl (fst x) \<Longrightarrow>
      \<exists>s. ser (trie_of (partition_incs fl (last (fork_keys fl incs)) incs)) = Inr s"
    and g: "grouped fl (incs @ [x])"
    and inv: "disk_inv ser fl incs d"
  shows "\<exists>d'. disk_increment ser d (fst x) (snd x) = Inr d' \<and> disk_inv ser fl (incs @ [x]) d'"
proof -
  let ?ks = "fork_keys fl incs"
  let ?s = "slice_to fl (fst x)"
  let ?e = "slice_from fl (fst x)"
  have dks: "distinct ?ks" using grouped_prefix [OF g] by (simp add: grouped_def)
  have k: "keys d = ?ks" and f: "trie_fork_length d = fl"
    and w: "weights d = trie_of (top_incs fl incs)"
    and cb: "current_branch_key d = (if incs = [] then None else Some (last ?ks))"
    and cn: "current_node d =
        (if incs = [] then None else Some (trie_of (partition_incs fl (last ?ks) incs)))"
    and sz: "serialized d = [0..<length ?ks - 1]"
    and st: "\<forall>i < length ?ks - 1. \<exists>s. map_of (storage d) i = Some s \<and>
             ser (trie_of (partition_incs fl (?ks ! i) incs)) = Inr s"
    using inv by (simp_all add: disk_inv_def)
  show ?thesis
  proof (cases "incs \<noteq> [] \<and> last ?ks = ?s")
    case True
    then have ks': "fork_keys fl (incs @ [x]) = ?ks" by (simp add: fork_keys_snoc)
    let ?d' = "d\<lparr>weights := increment (weights d) ?s (snd x),
        current_node := Some (increment (trie_of (partition_incs fl (last ?ks) incs)) ?e (snd x))\<rparr>"
    have run: "disk_increment ser d (fst x) (snd x) = Inr ?d'"
      using True cb cn f by (simp add: disk_increment_def Let_def)
    have other: "partition_incs fl (?ks ! i) (incs @ [x]) = partition_incs fl (?ks ! i) incs"
      if "i < length ?ks - 1" for i
    proof -
      have "?ks ! i \<noteq> last ?ks"
        using dks that by (rule nth_neq_last)
      then show ?thesis using True by (simp add: partition_incs_snoc)
    qed
    have "disk_inv ser fl (incs @ [x]) ?d'"
      unfolding disk_inv_def ks'
      using True k f w cb sz st other
      by (simp add: top_incs_snoc trie_of_snoc partition_incs_snoc)
    then show ?thesis using run by blast
  next
    case False
    then have ks': "fork_keys fl (incs @ [x]) = ?ks @ [?s]"
      by (auto simp: fork_keys_snoc)
    then have new: "?s \<notin> set ?ks" using g by (simp add: grouped_def)
    have pnew: "partition_incs fl ?s (incs @ [x]) = [(?e, snd x)]"
      using partition_incs_unseen [OF new] by (simp add: partition_incs_snoc)
    have other: "partition_incs fl key (incs @ [x]) = partition_incs fl key incs"
      if "key \<in> set ?ks" for key
      using that new by (auto simp: partition_incs_snoc)
    have node1: "increment empty_trie ?e (snd x) = trie_of [(?e, snd x)]"
      by (simp add: trie_of_def increment_all_def)
    show ?thesis
    proof (cases "incs = []")
      case True
      let ?d' = "d\<lparr>current_node := Some (increment empty_trie ?e (snd x)),
          current_branch_key := Some ?s, keys := keys d @ [?s],
          weights := increment (weights d) ?s (snd x)\<rparr>"
      have run: "disk_increment ser d (fst x) (snd x) = Inr ?d'"
        using True cb f
        by (simp add: disk_increment_def open_new_branch_def close_branch_def Let_def)
      have "disk_inv ser fl (incs @ [x]) ?d'"
        unfolding disk_inv_def ks'
        using True k f w sz pnew node1 trie_of_snoc [of "[]" "(?s, snd x)"]
        by (simp add: top_incs_def)
      then show ?thesis using run by blast
    next
      case ne: False
      then have kne: "?ks \<noteq> []" by simp
      let ?node = "trie_of (partition_incs fl (last ?ks) incs)"
      obtain s0 where s0: "ser ?node = Inr s0" using ok ne False by auto
      have idx: "sanitize d (last ?ks) = Inr (length ?ks - 1)"
        using index_of_last [OF dks kne] k by (simp add: sanitize_def)
      let ?d' = "d\<lparr>storage := AList.update (length ?ks - 1) s0 (storage d),
          serialized := serialized d @ [length ?ks - 1],
          current_node := Some (increment empty_trie ?e (snd x)),
          current_branch_key := Some ?s, keys := keys d @ [?s],
          weights := increment (weights d) ?s (snd x)\<rparr>"
      have run: "disk_increment ser d (fst x) (snd x) = Inr ?d'"
        using False ne cb cn f idx s0
        by (simp add: disk_increment_def open_new_branch_def close_branch_def Let_def)
      have ser': "[0..<length ?ks - 1] @ [length ?ks - 1] = [0..<length ?ks]"
        using kne by (cases "length ?ks") simp_all
      have stor: "\<exists>s. map_of (AList.update (length ?ks - 1) s0 (storage d)) i = Some s \<and>
             ser (trie_of (partition_incs fl ((?ks @ [?s]) ! i) (incs @ [x]))) = Inr s"
        if i: "i < length ?ks" for i
      proof (cases "i = length ?ks - 1")
        case True
        then have "(?ks @ [?s]) ! i = last ?ks" using kne i by (simp add: nth_append last_conv_nth)
        then show ?thesis using True s0 other [of "last ?ks"] kne
          by (simp add: update_conv')
      next
        case False
        then have i': "i < length ?ks - 1" using i by simp
        have "(?ks @ [?s]) ! i = ?ks ! i" using i by (simp add: nth_append)
        then show ?thesis using False st i' other [of "?ks ! i"] i
          by (simp add: update_conv')
      qed
      have "disk_inv ser fl (incs @ [x]) ?d'"
        unfolding disk_inv_def ks'
        using ne k f w sz pnew node1 stor ser'
        by (simp add: top_incs_snoc trie_of_snoc)
      then show ?thesis using run by blast
    qed
  qed
qed

lemma disk_increment_all_inv:
  assumes law: "serializer_law ser deser (partition_tries fl whole)"
    and g: "grouped fl whole"
  shows "whole = incs @ rest \<Longrightarrow>
    \<exists>d. disk_increment_all ser (new_DiskBackedTrie fl) incs = Inr d \<and> disk_inv ser fl incs d"
proof (induction incs arbitrary: rest rule: rev_induct)
  case Nil
  then show ?case by (simp add: disk_inv_new)
next
  case (snoc x incs)
  have w: "whole = incs @ x # rest" using snoc.prems by simp
  then obtain d where d: "disk_increment_all ser (new_DiskBackedTrie fl) incs = Inr d"
    "disk_inv ser fl incs d"
    using snoc.IH by blast
  have gx: "grouped fl (incs @ [x])"
    using g snoc.prems grouped_append [of fl "incs @ [x]" rest] by simp
  have ok: "\<exists>s. ser (trie_of (partition_incs fl (last (fork_keys fl incs)) incs)) = Inr s"
    if ne: "incs \<noteq> []" and df: "last (fork_keys fl incs) \<noteq> slice_to fl (fst x)"
  proof -
    let ?key = "last (fork_keys fl incs)"
    have "partition_incs fl ?key whole = partition_incs fl ?key incs"
      using grouped_closed [OF _ ne df, of rest] g w by simp
    moreover have "?key \<in> set (fork_keys fl whole)"
    proof -
      have "?key \<in> set (fork_keys fl incs)" using ne by simp
      then show ?thesis unfolding set_fork_keys w by auto
    qed
    ultimately have "trie_of (partition_incs fl ?key incs) \<in> set (partition_tries fl whole)"
      by (force simp: partition_tries_def)
    then show ?thesis using law by (auto simp: serializer_law_def)
  qed
  from disk_increment_step [OF ok gx d(2)] obtain d' where
    d': "disk_increment ser d (fst x) (snd x) = Inr d'" "disk_inv ser fl (incs @ [x]) d'"
    by blast
  then show ?case using d(1) by (simp add: disk_increment_all_append)
qed

lemma finish_inv:
  assumes law: "serializer_law ser deser (partition_tries fl incs)"
    and g: "grouped fl incs"
    and inv: "disk_inv ser fl incs d"
  shows "\<exists>d1. finish ser d = Inr d1 \<and> keys d1 = fork_keys fl incs \<and>
      weights d1 = trie_of (top_incs fl incs) \<and>
      serialized d1 = [0..<length (fork_keys fl incs)] \<and>
      (\<forall>i < length (fork_keys fl incs).
         \<exists>s. map_of (storage d1) i = Some s \<and>
             ser (trie_of (partition_incs fl (fork_keys fl incs ! i) incs)) = Inr s)"
proof -
  let ?ks = "fork_keys fl incs"
  have dks: "distinct ?ks" using g by (simp add: grouped_def)
  have k: "keys d = ?ks"
    and w: "weights d = trie_of (top_incs fl incs)"
    and cb: "current_branch_key d = (if incs = [] then None else Some (last ?ks))"
    and cn: "current_node d =
        (if incs = [] then None else Some (trie_of (partition_incs fl (last ?ks) incs)))"
    and sz: "serialized d = [0..<length ?ks - 1]"
    and st: "\<forall>i < length ?ks - 1. \<exists>s. map_of (storage d) i = Some s \<and>
             ser (trie_of (partition_incs fl (?ks ! i) incs)) = Inr s"
    using inv by (simp_all add: disk_inv_def)
  show ?thesis
  proof (cases "incs = []")
    case True
    then show ?thesis using k w cb sz by (simp add: finish_def)
  next
    case ne: False
    then have kne: "?ks \<noteq> []" by simp
    let ?node = "trie_of (partition_incs fl (last ?ks) incs)"
    have "?node \<in> set (partition_tries fl incs)"
      using kne by (simp add: partition_tries_def)
    then obtain s0 where s0: "ser ?node = Inr s0" using law by (auto simp: serializer_law_def)
    have idx: "sanitize d (last ?ks) = Inr (length ?ks - 1)"
      using index_of_last [OF dks kne] k by (simp add: sanitize_def)
    let ?d0 = "d\<lparr>storage := AList.update (length ?ks - 1) s0 (storage d),
          serialized := serialized d @ [length ?ks - 1],
          current_node := None, current_branch_key := None\<rparr>"
    let ?d1 = "?d0\<lparr>intermediate_info := Some (keys ?d0, weights ?d0)\<rparr>"
    have run: "finish ser d = Inr ?d1"
      using ne cb cn idx s0 by (simp add: finish_def close_branch_def)
    have ser': "[0..<length ?ks - 1] @ [length ?ks - 1] = [0..<length ?ks]"
      using kne by (cases "length ?ks") simp_all
    have stor: "\<exists>s. map_of (AList.update (length ?ks - 1) s0 (storage d)) i = Some s \<and>
             ser (trie_of (partition_incs fl (?ks ! i) incs)) = Inr s"
      if i: "i < length ?ks" for i
    proof (cases "i = length ?ks - 1")
      case True
      then have "?ks ! i = last ?ks" using kne by (simp add: last_conv_nth)
      then show ?thesis using True s0 by (simp add: update_conv')
    next
      case False
      then have "i < length ?ks - 1" using i by simp
      then show ?thesis using False st by (simp add: update_conv')
    qed
    show ?thesis using run k w sz ser' stor by simp
  qed
qed

lemma iterate_subtrees_stored:
  assumes law: "serializer_law ser deser (map T (keys d))"
    and dk: "distinct (keys d)"
    and st: "\<forall>i < length (keys d). \<exists>s. map_of (storage d) i = Some s \<and> ser (T (keys d ! i)) = Inr s"
  shows "set rest \<subseteq> set (keys d) \<Longrightarrow>
    iterate_subtrees deser d rest =
      (concat (map (\<lambda>key. map (\<lambda>sub. (key @ fst sub, snd sub)) (iterate (T key))) rest),
       Exhausted)"
proof (induction rest)
  case Nil
  then show ?case by simp
next
  case (Cons key rest)
  then have "key \<in> set (keys d)" by simp
  then obtain i where i: "i < length (keys d)" "keys d ! i = key"
    by (auto simp: in_set_conv_nth)
  have idx: "sanitize d key = Inr i"
    using index_of_nth [OF dk i(1)] i(2) by (simp add: sanitize_def)
  obtain s where s: "map_of (storage d) i = Some s" "ser (T key) = Inr s"
    using st i by blast
  obtain s' where s': "ser (T key) = Inr s'" "deser s' = (iterate (T key), Exhausted)"
    using law \<open>key \<in> set (keys d)\<close> by (auto simp: serializer_law_def)
  have ds: "deser s = (iterate (T key), Exhausted)" using s(2) s' by simp
  show ?case using idx s(1) ds Cons by (simp add: Let_def)
qed

lemma disk_build_and_iterate_output:
  assumes law: "serializer_law ser deser (partition_tries fl incs)" and g: "grouped fl incs"
  shows "\<exists>d'. disk_build_and_iterate ser deser fl incs =
      ((iterate (trie_of (top_incs fl incs)) @
        concat (map (\<lambda>key. map (\<lambda>sub. (key @ fst sub, snd sub))
                        (iterate (trie_of (partition_incs fl key incs))))
                  (fork_keys fl incs)),
        Exhausted), d') \<and>
     keys d' = fork_keys fl incs \<and> serialized d' = [0..<length (fork_keys fl incs)]"
proof -
  obtain d where d: "disk_increment_all ser (new_DiskBackedTrie fl) incs = Inr d"
    "disk_inv ser fl incs d"
    using disk_increment_all_inv [OF law g, of incs "[]"] by auto
  from finish_inv [OF law g d(2)] obtain d1 where d1: "finish ser d = Inr d1"
    "keys d1 = fork_keys fl incs" "weights d1 = trie_of (top_incs fl incs)"
    "serialized d1 = [0..<length (fork_keys fl incs)]"
    "\<forall>i < length (fork_keys fl incs).
         \<exists>s. map_of (storage d1) i = Some s \<and>
             ser (trie_of (partition_incs fl (fork_keys fl incs ! i) incs)) = Inr s"
    by blast
  have dk: "distinct (keys d1)" using g d1(2) by (simp add: grouped_def)
  have st: "\<forall>i < length (keys d1). \<exists>s. map_of (storage d1) i = Some s \<and>
      ser ((\<lambda>key. trie_of (partition_incs fl key incs)) (keys d1 ! i)) = Inr s"
    using d1(2,5) by simp
  have law1: "serializer_law ser deser
      (map (\<lambda>key. trie_of (partition_incs fl key incs)) (keys d1))"
    using law d1(2) by (simp add: partition_tries_def)
  have sub: "iterate_subtrees deser d1 (keys d1) =
      (concat (map (\<lambda>key. map (\<lambda>sub. (key @ fst sub, snd sub))
                  (iterate (trie_of (partition_incs fl key incs)))) (keys d1)), Exhausted)"
    using iterate_subtrees_stored [OF law1 dk st, of "keys d1"] by simp
  show ?thesis
    using d(1) d1(1,2,3,4) sub
    by (simp add: disk_build_and_iterate_def disk_iterate_def Let_def)
qed

lemma slice_nonneg:
  "0 \<le> fl \<Longrightarrow> slice_to fl xs = take (nat fl) xs \<and> slice_from fl xs = drop (nat fl) xs"
  by (simp add: slice_to_def slice_from_def)

lemma prefix_weight_map_filter:
  "prefix_weight (map (\<lambda>kw. (f (fst kw), snd kw)) (filter P incs)) p =
     sum_list (map snd (filter (\<lambda>kw. P kw \<and> prefix p (f (fst kw))) incs))"
  by (induction incs) simp_all

lemma prefix_take_iff: "length p \<le> n \<Longrightarrow> prefix p (take n k) \<longleftrightarrow> prefix p k"
proof
  assume "prefix p (take n k)"
  then show "prefix p k" using take_is_prefix prefix_order.trans by blast
next
  assume l: "length p \<le> n" and p: "prefix p k"
  then obtain r where "k = p @ r" by (auto simp: prefix_def)
  then show "prefix p (take n k)" using l by (simp add: prefix_def)
qed

lemma prefix_split:
  "length key = n \<Longrightarrow> prefix (key @ s) k \<longleftrightarrow> take n k = key \<and> prefix s (drop n k)"
proof
  assume l: "length key = n" and "prefix (key @ s) k"
  then obtain r where "k = key @ s @ r" by (auto simp: prefix_def)
  then show "take n k = key \<and> prefix s (drop n k)" using l by simp
next
  assume l: "length key = n" and h: "take n k = key \<and> prefix s (drop n k)"
  then obtain r where "drop n k = s @ r" by (auto simp: prefix_def)
  moreover have "k = take n k @ drop n k" by simp
  ultimately have "k = key @ s @ r" using h by metis
  then show "prefix (key @ s) k" by (simp add: prefix_def)
qed

lemma distinct_concat_map:
  "distinct ks \<Longrightarrow> (\<forall>k \<in> set ks. distinct (f k)) \<Longrightarrow>
   (\<forall>k \<in> set ks. \<forall>k' \<in> set ks. k \<noteq> k' \<longrightarrow> set (f k) \<inter> set (f k') = {}) \<Longrightarrow>
   distinct (concat (map f ks))"
  by (induction ks) auto

lemma top_paths:
  assumes "0 \<le> fl"
  shows "set (tl (paths (trie_of (top_incs fl incs)))) =
     {p. p \<noteq> [] \<and> length p \<le> nat fl \<and> (\<exists>kw \<in> set incs. prefix p (fst kw))}"
proof -
  have "p \<noteq> [] \<and> (\<exists>kw \<in> set (top_incs fl incs). prefix p (fst kw)) \<longleftrightarrow>
      p \<noteq> [] \<and> length p \<le> nat fl \<and> (\<exists>kw \<in> set incs. prefix p (fst kw))" for p
  proof -
    have "(\<exists>kw \<in> set (top_incs fl incs). prefix p (fst kw)) \<longleftrightarrow>
        (\<exists>kw \<in> set incs. prefix p (take (nat fl) (fst kw)))"
      using assms by (auto simp: top_incs_def slice_nonneg)
    also have "\<dots> \<longleftrightarrow> length p \<le> nat fl \<and> (\<exists>kw \<in> set incs. prefix p (fst kw))"
    proof
      assume "\<exists>kw \<in> set incs. prefix p (take (nat fl) (fst kw))"
      then obtain kw where kw: "kw \<in> set incs" "prefix p (take (nat fl) (fst kw))" by blast
      then have "length p \<le> nat fl" using prefix_length_le by fastforce
      then show "length p \<le> nat fl \<and> (\<exists>kw \<in> set incs. prefix p (fst kw))"
        using kw prefix_take_iff by blast
    next
      assume "length p \<le> nat fl \<and> (\<exists>kw \<in> set incs. prefix p (fst kw))"
      then show "\<exists>kw \<in> set incs. prefix p (take (nat fl) (fst kw))"
        using prefix_take_iff by blast
    qed
    finally show ?thesis by simp
  qed
  then show ?thesis unfolding set_paths_trie_of by (intro Collect_cong)
qed

lemma partition_paths:
  assumes "0 \<le> fl"
  shows "set (tl (paths (trie_of (partition_incs fl key incs)))) =
     {s. s \<noteq> [] \<and> length key = nat fl \<and> (\<exists>kw \<in> set incs. prefix (key @ s) (fst kw))}"
proof -
  have "s \<noteq> [] \<and> (\<exists>kw \<in> set (partition_incs fl key incs). prefix s (fst kw)) \<longleftrightarrow>
      s \<noteq> [] \<and> length key = nat fl \<and> (\<exists>kw \<in> set incs. prefix (key @ s) (fst kw))" for s
  proof
    assume h: "s \<noteq> [] \<and> (\<exists>kw \<in> set (partition_incs fl key incs). prefix s (fst kw))"
    then obtain kw where kw: "kw \<in> set incs" "take (nat fl) (fst kw) = key"
      "prefix s (drop (nat fl) (fst kw))"
      using assms by (auto simp: partition_incs_def slice_nonneg)
    have "drop (nat fl) (fst kw) \<noteq> []" using kw(3) h by auto
    then have l: "length key = nat fl" using kw(2) by auto
    then have "prefix (key @ s) (fst kw)" using kw(2,3) prefix_split by blast
    then show "s \<noteq> [] \<and> length key = nat fl \<and> (\<exists>kw \<in> set incs. prefix (key @ s) (fst kw))"
      using h l kw(1) by blast
  next
    assume h: "s \<noteq> [] \<and> length key = nat fl \<and> (\<exists>kw \<in> set incs. prefix (key @ s) (fst kw))"
    then obtain kw where kw: "kw \<in> set incs" "prefix (key @ s) (fst kw)" by blast
    then have "take (nat fl) (fst kw) = key \<and> prefix s (drop (nat fl) (fst kw))"
      using h prefix_split by blast
    then have "(drop (nat fl) (fst kw), snd kw) \<in> set (partition_incs fl key incs)"
      using kw(1) assms by (auto simp: partition_incs_def slice_nonneg)
    then show "s \<noteq> [] \<and> (\<exists>kw \<in> set (partition_incs fl key incs). prefix s (fst kw))"
      using h \<open>take (nat fl) (fst kw) = key \<and> prefix s (drop (nat fl) (fst kw))\<close> by force
  qed
  then show ?thesis unfolding set_paths_trie_of by (intro Collect_cong)
qed

lemma top_weight:
  assumes "0 \<le> fl" "length p \<le> nat fl"
  shows "prefix_weight (top_incs fl incs) p = prefix_weight incs p"
proof -
  have "prefix_weight (top_incs fl incs) p =
      sum_list (map snd (filter (\<lambda>kw. True \<and> prefix p (take (nat fl) (fst kw))) incs))"
    using prefix_weight_map_filter [of "take (nat fl)" "\<lambda>_. True" incs p] assms(1)
    by (simp add: top_incs_def slice_nonneg)
  also have "\<dots> = sum_list (map snd (filter (\<lambda>kw. prefix p (fst kw)) incs))"
    using assms(2) by (simp add: prefix_take_iff)
  finally show ?thesis by (simp add: prefix_weight_def)
qed

lemma partition_weight:
  assumes "0 \<le> fl" "length key = nat fl"
  shows "prefix_weight (partition_incs fl key incs) s = prefix_weight incs (key @ s)"
proof -
  have "prefix_weight (partition_incs fl key incs) s =
      sum_list (map snd (filter (\<lambda>kw. take (nat fl) (fst kw) = key \<and>
         prefix s (drop (nat fl) (fst kw))) incs))"
    using prefix_weight_map_filter
      [of "drop (nat fl)" "\<lambda>kw. take (nat fl) (fst kw) = key" incs s] assms(1)
    by (simp add: partition_incs_def slice_nonneg)
  also have "\<dots> = sum_list (map snd (filter (\<lambda>kw. prefix (key @ s) (fst kw)) incs))"
    using assms(2) by (simp add: prefix_split)
  finally show ?thesis by (simp add: prefix_weight_def)
qed

lemma in_top_paths:
  "0 \<le> fl \<Longrightarrow> p \<in> set (tl (paths (trie_of (top_incs fl incs)))) \<longleftrightarrow>
     p \<noteq> [] \<and> length p \<le> nat fl \<and> (\<exists>kw \<in> set incs. prefix p (fst kw))"
  by (simp add: top_paths)

lemma in_partition_paths:
  "0 \<le> fl \<Longrightarrow> s \<in> set (tl (paths (trie_of (partition_incs fl key incs)))) \<longleftrightarrow>
     s \<noteq> [] \<and> length key = nat fl \<and> (\<exists>kw \<in> set incs. prefix (key @ s) (fst kw))"
  by (simp add: partition_paths)

lemma disk_output_paths:
  assumes "0 \<le> fl"
  shows "iterate (trie_of (top_incs fl incs)) @
        concat (map (\<lambda>key. map (\<lambda>sub. (key @ fst sub, snd sub))
                        (iterate (trie_of (partition_incs fl key incs))))
                  (fork_keys fl incs)) =
      map (\<lambda>q. (q, prefix_weight incs q)) (disk_paths fl incs)"
proof -
  have top: "iterate (trie_of (top_incs fl incs)) =
      map (\<lambda>q. (q, prefix_weight incs q)) (tl (paths (trie_of (top_incs fl incs))))"
    unfolding iterate_trie_of
    by (rule map_cong) (simp_all add: in_top_paths [OF assms] top_weight [OF assms])
  have part: "map (\<lambda>sub. (key @ fst sub, snd sub)) (iterate (trie_of (partition_incs fl key incs))) =
      map (\<lambda>q. (q, prefix_weight incs q))
        (map ((@) key) (tl (paths (trie_of (partition_incs fl key incs)))))" for key
    unfolding iterate_trie_of
    by (simp add: comp_def in_partition_paths [OF assms] partition_weight [OF assms])
  show ?thesis
    unfolding disk_paths_def by (simp add: top part map_concat comp_def)
qed

lemma distinct_disk_paths:
  assumes "0 \<le> fl" "grouped fl incs"
  shows "distinct (disk_paths fl incs)"
proof -
  let ?P = "\<lambda>key. map ((@) key) (tl (paths (trie_of (partition_incs fl key incs))))"
  have mem: "q \<in> set (?P key) \<Longrightarrow> length key = nat fl \<and> length q > nat fl \<and> take (nat fl) q = key"
    for q key
  proof -
    assume "q \<in> set (?P key)"
    then obtain s where s: "q = key @ s" "s \<in> set (tl (paths (trie_of (partition_incs fl key incs))))"
      by auto
    then have "s \<noteq> []" "length key = nat fl"
      using in_partition_paths [OF assms(1), of s key incs] by simp_all
    then show ?thesis using s(1) by simp
  qed
  have d1: "distinct (tl (paths (trie_of (top_incs fl incs))))"
    by (simp add: distinct_tl_paths wf_trie_of)
  have d2: "distinct (concat (map ?P (fork_keys fl incs)))"
  proof (rule distinct_concat_map)
    show "distinct (fork_keys fl incs)" using assms(2) by (simp add: grouped_def)
    show "\<forall>k \<in> set (fork_keys fl incs). distinct (?P k)"
      by (simp add: distinct_map distinct_tl_paths wf_trie_of inj_on_def)
    show "\<forall>k \<in> set (fork_keys fl incs). \<forall>k' \<in> set (fork_keys fl incs).
        k \<noteq> k' \<longrightarrow> set (?P k) \<inter> set (?P k') = {}"
    proof (intro ballI impI)
      fix k k'
      assume "k \<in> set (fork_keys fl incs)" "k' \<in> set (fork_keys fl incs)"
        and ne: "k \<noteq> k'"
      show "set (?P k) \<inter> set (?P k') = {}"
      proof (rule ccontr)
        assume "\<not> ?thesis"
        then obtain q where "q \<in> set (?P k)" "q \<in> set (?P k')" by blast
        then have "take (nat fl) q = k" "take (nat fl) q = k'" using mem by blast+
        then show False using ne by simp
      qed
    qed
  qed
  have d3: "set (tl (paths (trie_of (top_incs fl incs)))) \<inter>
      set (concat (map ?P (fork_keys fl incs))) = {}"
  proof -
    have a: "q \<in> set (tl (paths (trie_of (top_incs fl incs)))) \<Longrightarrow> length q \<le> nat fl" for q
      by (simp add: in_top_paths [OF assms(1)])
    have b: "q \<in> set (concat (map ?P (fork_keys fl incs))) \<Longrightarrow> length q > nat fl" for q
    proof -
      assume "q \<in> set (concat (map ?P (fork_keys fl incs)))"
      then obtain key where "q \<in> set (?P key)" by auto
      then show ?thesis using mem by blast
    qed
    show ?thesis
    proof (rule ccontr)
      assume "\<not> ?thesis"
      then obtain q where "q \<in> set (tl (paths (trie_of (top_incs fl incs))))"
        "q \<in> set (concat (map ?P (fork_keys fl incs)))" by blast
      then show False using a [of q] b [of q] by simp
    qed
  qed
  show ?thesis unfolding disk_paths_def using d1 d2 d3 by simp
qed

lemma set_disk_paths:
  assumes "0 \<le> fl"
  shows "set (disk_paths fl incs) = {q. q \<noteq> [] \<and> (\<exists>kw \<in> set incs. prefix q (fst kw))}"
proof (rule set_eqI, rule iffI)
  fix q
  assume "q \<in> set (disk_paths fl incs)"
  then consider "q \<in> set (tl (paths (trie_of (top_incs fl incs))))"
    | key where "key \<in> set (fork_keys fl incs)"
        "q \<in> (@) key ` set (tl (paths (trie_of (partition_incs fl key incs))))"
    by (auto simp: disk_paths_def)
  then show "q \<in> {q. q \<noteq> [] \<and> (\<exists>kw \<in> set incs. prefix q (fst kw))}"
  proof cases
    case 1
    then show ?thesis by (simp add: in_top_paths [OF assms])
  next
    case 2
    then obtain s where "q = key @ s" "s \<in> set (tl (paths (trie_of (partition_incs fl key incs))))"
      by auto
    then show ?thesis by (simp add: in_partition_paths [OF assms])
  qed
next
  fix q
  assume "q \<in> {q. q \<noteq> [] \<and> (\<exists>kw \<in> set incs. prefix q (fst kw))}"
  then obtain kw where q: "q \<noteq> []" "kw \<in> set incs" "prefix q (fst kw)" by blast
  show "q \<in> set (disk_paths fl incs)"
  proof (cases "length q \<le> nat fl")
    case True
    then have "q \<in> set (tl (paths (trie_of (top_incs fl incs))))"
      using q by (auto simp: in_top_paths [OF assms])
    then show ?thesis by (simp add: disk_paths_def)
  next
    case False
    let ?key = "take (nat fl) q"
    let ?s = "drop (nat fl) q"
    have l: "length ?key = nat fl" using False by simp
    have s: "?s \<noteq> []" using False by simp
    have "take (nat fl) (fst kw) = ?key"
      using q(3) False by (auto simp: prefix_def)
    then have "?key \<in> set (fork_keys fl incs)"
      using q(2) assms by (force simp: set_fork_keys slice_nonneg)
    moreover have "?s \<in> set (tl (paths (trie_of (partition_incs fl ?key incs))))"
      using l s q(2,3) by (auto simp: in_partition_paths [OF assms])
    moreover have "q = ?key @ ?s" by simp
    ultimately have "q \<in> set (concat (map (\<lambda>key. map ((@) key)
        (tl (paths (trie_of (partition_incs fl key incs))))) (fork_keys fl incs)))"
      by (auto simp del: append_take_drop_id intro!: bexI [of _ ?key] image_eqI [of _ _ ?s])
    then show ?thesis by (simp add: disk_paths_def)
  qed
qed

lemma mset_disk_output:
  assumes "0 \<le> fl" "grouped fl incs"
  shows "mset (map (\<lambda>q. (q, prefix_weight incs q)) (disk_paths fl incs)) =
     mset (iterate (trie_of incs))"
proof -
  have "set (disk_paths fl incs) = set (tl (paths (trie_of incs)))"
    by (simp only: set_disk_paths [OF assms(1)] set_paths_trie_of)
  moreover have "distinct (tl (paths (trie_of incs)))"
    by (simp add: distinct_tl_paths wf_trie_of)
  ultimately have "mset (disk_paths fl incs) = mset (tl (paths (trie_of incs)))"
    using distinct_disk_paths [OF assms] by (simp add: set_eq_iff_mset_eq_distinct)
  then have "mset (map (\<lambda>q. (q, prefix_weight incs q)) (disk_paths fl incs)) =
      mset (map (\<lambda>q. (q, prefix_weight incs q)) (tl (paths (trie_of incs))))"
    by (metis mset_map)
  then show ?thesis by (simp add: iterate_trie_of)
qed

lemma serializer_law_memory: "serializer_law memory_serialize memory_deserialize tries"
  by (simp add: serializer_law_def memory_serialize_def memory_deserialize_def)

text \<open>
  \<open>NodeTrieSerializer\<close> serializes and reads back every trie whose entries fit its
  format: prefixes of at most 255 bytes, weights of 64 bits, offsets of 64 bits.
\<close>

lemma serializer_law_node:
  assumes "text_codec enc dec" and "toc_chunk \<noteq> 0"
    and "\<forall>t \<in> set tries. \<forall>item \<in> set (iterate t).
           (\<exists>raw. enc (fst item) = Some raw \<and> length raw \<le> 255) \<and>
           0 \<le> snd item \<and> snd item < 2 ^ 64"
    and "\<forall>t \<in> set tries. 264 * length (iterate t) + 16 < 2 ^ 64"
  shows "serializer_law (node_serialize enc toc_chunk) (node_deserialize dec) tries"
  unfolding serializer_law_def
proof
  fix t
  assume t: "t \<in> set tries"
  then have "\<forall>item \<in> set (iterate t).
           (\<exists>raw. enc (fst item) = Some raw \<and> length raw \<le> 255) \<and>
           0 \<le> snd item \<and> snd item < 2 ^ 64"
    using assms(3) by blast
  then obtain bss where bss: "written enc node_write_value (iterate t) bss"
    "length (concat bss) \<le> 264 * length (iterate t)"
    using node_records_written by blast
  have "fmt_size + length (concat bss) < 2 ^ 64"
    using bss(2) assms(4) t by (auto simp: fmt_size_def)
  then obtain bytes where f: "do_serialize enc node_write_value toc_chunk (iterate t) = Inr bytes"
    using do_serialize_succeeds [OF bss(1) assms(2)] by blast
  have "deserialize dec node_read_value bytes = (iterate t, Exhausted)"
    using assms(1) value_codec_node f by (rule deserialize_do_serialize)
  then show "\<exists>s. node_serialize enc toc_chunk t = Inr s \<and>
      node_deserialize dec s = (iterate t, Exhausted)"
    using f by (simp add: node_serialize_def node_deserialize_def)
qed

text \<open>
  Claim C6, as the code has it. Let the serializer succeed on the trie of every
  partition and give back its entries when deserialized (\<open>MemoryTrieSerializer\<close> always
  does, \<open>NodeTrieSerializer\<close> when the entries fit its format), let the fork length be
  non-negative (2 in the claim) and let the increments with the same fork prefix follow
  one another. Then no call raises; the keys are the fork prefixes in first-seen order
  and the partition of every key is serialized exactly once, under its index;
  \<open>iterate\<close> yields the entries of the top-level trie followed by the entries of every
  partition in the order of the keys, each with its key put before the prefix. These
  are, as a multiset, the entries of one \<open>NodeTrie\<close> incremented with the whole keys:
  every non-empty prefix of a key exactly once, with the sum of the weights of the keys
  that extend it; so every original key occurs exactly once, with that weight.
\<close>

theorem C6_disk_backed_trie_grouped:
  assumes "serializer_law ser deser (partition_tries fl incs)" and "0 \<le> fl" and "grouped fl incs"
  shows "\<exists>out d'. disk_build_and_iterate ser deser fl incs = ((out, Exhausted), d') \<and>
      keys d' = fork_keys fl incs \<and> serialized d' = [0..<length (keys d')] \<and>
      out = iterate (trie_of (top_incs fl incs)) @
            concat (map (\<lambda>key. map (\<lambda>sub. (key @ fst sub, snd sub))
                            (iterate (trie_of (partition_incs fl key incs))))
                      (keys d')) \<and>
      mset out = mset (iterate (trie_of incs)) \<and>
      distinct (map fst out) \<and>
      (\<forall>kw \<in> set incs. fst kw \<noteq> [] \<longrightarrow> (fst kw, prefix_weight incs (fst kw)) \<in> set out)"
proof -
  define out where "out = iterate (trie_of (top_incs fl incs)) @
        concat (map (\<lambda>key. map (\<lambda>sub. (key @ fst sub, snd sub))
                        (iterate (trie_of (partition_incs fl key incs))))
                  (fork_keys fl incs))"
  obtain d' where d': "disk_build_and_iterate ser deser fl incs = ((out, Exhausted), d')"
    "keys d' = fork_keys fl incs" "serialized d' = [0..<length (fork_keys fl incs)]"
    unfolding out_def using disk_build_and_iterate_output [OF assms(1,3)] by blast
  have "out = map (\<lambda>q. (q, prefix_weight incs q)) (disk_paths fl incs)"
    unfolding out_def by (rule disk_output_paths [OF assms(2)])
  then have m: "mset out = mset (iterate (trie_of incs))"
    by (simp only: mset_disk_output [OF assms(2,3)])
  have "mset (map fst out) = mset (map fst (iterate (trie_of incs)))"
    by (simp only: mset_map m)
  from mset_eq_imp_distinct_iff [OF this]
  have dist: "distinct (map fst out)"
    using distinct_iterate_trie_of [of incs] by blast
  have s: "set out = set (iterate (trie_of incs))" using m by (rule mset_eq_setD)
  have orig: "\<forall>kw \<in> set incs. fst kw \<noteq> [] \<longrightarrow> (fst kw, prefix_weight incs (fst kw)) \<in> set out"
  proof (intro ballI impI)
    fix kw assume "kw \<in> set incs" "fst kw \<noteq> []"
    then have "fst kw \<noteq> [] \<and> (\<exists>kw' \<in> set incs. prefix (fst kw) (fst kw')) \<and>
        prefix_weight incs (fst kw) = prefix_weight incs (fst kw)"
      by blast
    then show "(fst kw, prefix_weight incs (fst kw)) \<in> set out"
      unfolding s iterate_trie_of_entry by blast
  qed
  have e: "out = iterate (trie_of (top_incs fl incs)) @
        concat (map (\<lambda>key. map (\<lambda>sub. (key @ fst sub, snd sub))
                        (iterate (trie_of (partition_incs fl key incs))))
                  (keys d'))"
    by (simp only: d'(2) out_def)
  have ser: "serialized d' = [0..<length (keys d')]" by (simp only: d'(2,3))
  from d'(1) d'(2) ser e m dist orig show ?thesis by blast
qed

theorem C6_disk_backed_trie_grouped_witness:
  "grouped 2 [(''abcd'', 1), (''abce'', 2), (''cdef'', 4 :: int)]
   \<and> fst (disk_build_and_iterate memory_serialize memory_deserialize 2
            [(''abcd'', 1), (''abce'', 2), (''cdef'', 4)]) =
       ([(''a'', 3), (''ab'', 3), (''c'', 4), (''cd'', 4), (''abc'', 3), (''abcd'', 1),
         (''abce'', 2), (''cde'', 4), (''cdef'', 4)], Exhausted)
   \<and> serialized (snd (disk_build_and_iterate memory_serialize memory_deserialize 2
            [(''abcd'', 1), (''abce'', 2), (''cdef'', 4)])) = [0, 1]
   \<and> keys (snd (disk_build_and_iterate memory_serialize memory_deserialize 2
            [(''abcd'', 1), (''abce'', 2), (''cdef'', 4)])) = [''ab'', ''cd'']
   \<and> mset [(''a'', 3), (''ab'', 3), (''c'', 4), (''cd'', 4), (''abc'', 3), (''abcd'', 1),
         (''abce'', 2), (''cde'', 4), (''cdef'', 4)] =
       mset (iterate (trie_of [(''abcd'', 1), (''abce'', 2), (''cdef'', 4)]))
   \<and> fst (disk_build_and_iterate (node_serialize latin1_encode 2)
            (node_deserialize latin1_decode) 2
            [(''abcd'', 1), (''abce'', 2), (''cdef'', 4)]) =
       ([(''a'', 3), (''ab'', 3), (''c'', 4), (''cd'', 4), (''abc'', 3), (''abcd'', 1),
         (''abce'', 2), (''cde'', 4), (''cdef'', 4)], Exhausted)
   \<and> serialized (snd (disk_build_and_iterate (node_serialize latin1_encode 2)
            (node_deserialize latin1_decode) 2
            [(''abcd'', 1), (''abce'', 2), (''cdef'', 4)])) = [0, 1]"
proof -
  let ?incs = "[(''abcd'', 1), (''abce'', 2), (''cdef'', 4 :: int)]"
  let ?out = "[(''a'', 3), (''ab'', 3), (''c'', 4), (''cd'', 4), (''abc'', 3), (''abcd'', 1),
         (''abce'', 2), (''cde'', 4), (''cdef'', 4 :: int)]"
  have g: "grouped 2 ?incs"
    by code_simp
  have z: "(0 :: int) \<le> 2" by simp
  have o: "fst (disk_build_and_iterate memory_serialize memory_deserialize 2 ?incs) =
       (?out, Exhausted)"
    by code_simp
  have s: "serialized (snd (disk_build_and_iterate memory_serialize memory_deserialize 2
            ?incs)) = [0, 1]"
    by code_simp
  have k: "keys (snd (disk_build_and_iterate memory_serialize memory_deserialize 2
            ?incs)) = [''ab'', ''cd'']"
    by code_simp
  obtain out d' where h:
    "disk_build_and_iterate memory_serialize memory_deserialize 2 ?incs =
       ((out, Exhausted), d')"
    "mset out = mset (iterate (trie_of ?incs))"
    using C6_disk_backed_trie_grouped [OF serializer_law_memory z g] by blast
  have "out = ?out"
    using h(1) o by simp
  then have m: "mset ?out = mset (iterate (trie_of ?incs))" using h(2) by simp
  have fits: "list_all (\<lambda>t. list_all (\<lambda>item. length (fst item) \<le> 4 \<and> 0 \<le> snd item \<and>
        snd item \<le> 4) (iterate t) \<and> length (iterate t) \<le> 4) (partition_tries 2 ?incs)"
    by code_simp
  have c: "(2 :: int) \<noteq> 0" by simp
  have law: "serializer_law (node_serialize latin1_encode 2) (node_deserialize latin1_decode)
      (partition_tries 2 ?incs)"
  proof (rule serializer_law_node [OF text_codec_latin1 c])
    show "\<forall>t \<in> set (partition_tries 2 ?incs). \<forall>item \<in> set (iterate t).
           (\<exists>raw. latin1_encode (fst item) = Some raw \<and> length raw \<le> 255) \<and>
           0 \<le> snd item \<and> snd item < 2 ^ 64"
      using fits by (fastforce simp: list_all_iff latin1_encode_def)
    show "\<forall>t \<in> set (partition_tries 2 ?incs). 264 * length (iterate t) + 16 < 2 ^ 64"
      using fits by (fastforce simp: list_all_iff)
  qed
  obtain out2 d2 where h2:
    "disk_build_and_iterate (node_serialize latin1_encode 2) (node_deserialize latin1_decode) 2
       ?incs = ((out2, Exhausted), d2)"
    "serialized d2 = [0..<length (keys d2)]" "keys d2 = fork_keys 2 ?incs"
    "mset out2 = mset (iterate (trie_of ?incs))"
    using C6_disk_backed_trie_grouped [OF law z g] by blast
  have o2: "fst (disk_build_and_iterate (node_serialize latin1_encode 2)
      (node_deserialize latin1_decode) 2 ?incs) = (?out, Exhausted)"
    by code_simp
  have fk: "fork_keys 2 ?incs = [''ab'', ''cd'']" by code_simp
  have s2: "serialized (snd (disk_build_and_iterate (node_serialize latin1_encode 2)
      (node_deserialize latin1_decode) 2 ?incs)) = [0, 1]"
    using h2(1,2,3) fk by (simp add: upt_rec)
  show ?thesis using g o s k m o2 s2 by (intro conjI)
qed

text \<open>
  The claim as stated fails for a sequence in which a fork prefix comes back after
  another one: the partition of \<open>ab\<close> is serialized twice under the same name, the
  second overwriting the first, so \<open>iterate\<close> never yields the key \<open>abcd\<close> and yields
  \<open>abgh\<close> twice.
\<close>

theorem C6_ungrouped_keys_lost_and_repeated:
  "fst (disk_build_and_iterate memory_serialize memory_deserialize 2
          [(''abcd'', 1), (''cdef'', 1), (''abgh'', 1)]) =
     ([(''a'', 2), (''ab'', 2), (''c'', 1), (''cd'', 1), (''abg'', 1), (''abgh'', 1),
       (''cde'', 1), (''cdef'', 1), (''abg'', 1), (''abgh'', 1)], Exhausted)
   \<and> serialized (snd (disk_build_and_iterate memory_serialize memory_deserialize 2
          [(''abcd'', 1), (''cdef'', 1), (''abgh'', 1)])) = [0, 1, 0]"
  by code_simp

section \<open>The parallel search: what reaches the final output\<close>

text \<open>
  After \<open>flush\<close> a file holds all the text that was written to it; without it, a text of at
  most the size of the buffer has not reached the file.
\<close>

lemma on_disk_flush_fold:
  "on_disk (file_flush (fold file_write ws f)) = on_disk f @ held f @ concat ws"
  by (induction ws arbitrary: f) (simp_all add: file_flush_def file_write_def)

lemma on_disk_fold_short:
  "length (held f) + length (concat ws) \<le> DEFAULT_BUFFER_SIZE \<Longrightarrow>
   on_disk (fold file_write ws f) = on_disk f"
  by (induction ws arbitrary: f) (simp_all add: file_write_def)

lemma concat_write_calls: "output_wf fmt g \<Longrightarrow> concat (write_calls fmt g) = ostream g"
proof -
  have "(\<lambda>(password, prob). serialize_line fmt password prob) = line_of fmt"
    by (simp add: line_of_def serialize_line_def fun_eq_iff)
  then show "output_wf fmt g \<Longrightarrow> concat (write_calls fmt g) = ostream g"
    by (simp add: output_wf_def write_calls_def)
qed

lemma output_wf_new: "output_wf fmt new_Guesser"
  by (simp add: output_wf_def new_Guesser_def)

lemma do_guessing_Inr:
  assumes "do_guessing cfg fmt cp s p = Inr r" "PASSWORD_END \<notin> set s"
  shows "snd r = ostream (final_state (recur PlainGuesser cfg fmt cp s p new_Guesser))"
proof -
  obtain g where g: "recur PlainGuesser cfg fmt cp s p new_Guesser = Inr g"
    and r: "r = (generated g, on_disk (file_flush (stream_of fmt g)))"
    using assms(1) by (auto simp: do_guessing_def split: sum.splits prod.splits)
  have "output_wf fmt g"
    using output_wf_recur [OF assms(2) output_wf_new, of fmt PlainGuesser cfg cp p] g by simp
  then show ?thesis
    using r g by (simp add: stream_of_def on_disk_flush_fold new_textfile_def concat_write_calls)
qed

lemma run_workers_Inr:
  assumes "run_workers cfg fmt cp fps = Inr answer"
    "\<forall>fp \<in> set fps. PASSWORD_END \<notin> set (fst fp)"
  shows "map snd answer =
     map (\<lambda>fp. ostream (final_state (recur PlainGuesser cfg fmt cp (fst fp) (snd fp) new_Guesser)))
       fps"
  using assms
proof (induction fps arbitrary: answer)
  case Nil
  then show ?case by simp
next
  case (Cons fp fps)
  obtain r rs where r: "do_guessing cfg fmt cp (fst fp) (snd fp) = Inr r"
    and rs: "run_workers cfg fmt cp fps = Inr rs" and a: "answer = r # rs"
    using Cons.prems(1) by (auto split: sum.splits)
  show ?case
    using Cons.IH [OF rs] Cons.prems(2) do_guessing_Inr [OF r] a by simp
qed

lemma fork_points_recur:
  assumes "PASSWORD_END \<notin> set astring" "\<forall>fp \<in> set (fork_points g). PASSWORD_END \<notin> set (fst fp)"
  shows "\<forall>fp \<in> set (fork_points (final_state (recur cls cfg fmt cp astring prob g))).
           PASSWORD_END \<notin> set (fst fp)"
  by (rule recur_invariant [where P = "\<lambda>a. PASSWORD_END \<notin> set a"
        and I = "\<lambda>g. \<forall>fp \<in> set (fork_points g). PASSWORD_END \<notin> set (fst fp)"])
     (use assms in \<open>auto simp: emit_def\<close>)

lemma collect_answer_concat:
  "collect_answer t fs out = out @ on_disk t @ concat fs"
proof -
  have "fold (\<lambda>stream out. out @ stream) xs out = out @ concat xs" for xs :: "string list" and out
    by (induction xs arbitrary: out) simp_all
  then show ?thesis by (simp add: collect_answer_def)
qed

lemma parallel_guess_output:
  assumes "recur ParallelGuesser cfg fmt cp [] 1 new_Guesser = Inr g"
    and "run_workers cfg fmt cp (fork_points g) = Inr answer" and "fork_points g \<noteq> []"
  shows "map_sum id snd (parallel_guess cfg fmt cp) =
           Inr (on_disk (stream_of fmt g) @
                concat (map (\<lambda>fp. ostream (final_state
                   (recur PlainGuesser cfg fmt cp (fst fp) (snd fp) new_Guesser))) (fork_points g)))"
    and "length (ostream g) \<le> DEFAULT_BUFFER_SIZE \<Longrightarrow> on_disk (stream_of fmt g) = []"
proof -
  have "\<forall>fp \<in> set (fork_points (final_state (recur ParallelGuesser cfg fmt cp [] 1 new_Guesser))).
           PASSWORD_END \<notin> set (fst fp)"
    by (rule fork_points_recur) (simp_all add: new_Guesser_def)
  then have "\<forall>fp \<in> set (fork_points g). PASSWORD_END \<notin> set (fst fp)"
    using assms(1) by simp
  from run_workers_Inr [OF assms(2) this]
  show "map_sum id snd (parallel_guess cfg fmt cp) =
           Inr (on_disk (stream_of fmt g) @
                concat (map (\<lambda>fp. ostream (final_state
                   (recur PlainGuesser cfg fmt cp (fst fp) (snd fp) new_Guesser))) (fork_points g)))"
    using assms by (simp add: parallel_guess_def do_forking_def collect_answer_concat)
  have "output_wf fmt (final_state (recur ParallelGuesser cfg fmt cp [] 1 new_Guesser))"
    by (rule output_wf_recur) (simp_all add: output_wf_new)
  then have "concat (write_calls fmt g) = ostream g"
    using assms(1) by (simp add: concat_write_calls)
  then show "length (ostream g) \<le> DEFAULT_BUFFER_SIZE \<Longrightarrow> on_disk (stream_of fmt g) = []"
    using on_disk_fold_short [of new_textfile "write_calls fmt g"]
    by (simp add: stream_of_def new_textfile_def)
qed

text \<open>
  Claim C9 says that the final output of \<open>ParallelGuesser\<close> is the output of the root
  followed by the output of every forked worker in the order of the fork points, no line
  duplicated or dropped. By \<open>parallel_guess_output\<close>, when all workers succeed the final
  output is what has reached the root's temporary file, followed by the whole outputs of
  the workers in the order of the fork points. But the root's stream is never flushed
  before \<open>collect_answer\<close> opens its file by name, as \<open>Guesser.do_guessing\<close> does for
  the stream of a worker, so an output of the root that fits in the buffer is dropped. In
  the scenario of the specification the root writes the line of the empty password and
  finds the fork points \<open>a\<close> and \<open>b\<close>; the final output is the three lines of each of the
  two workers, without the line of the root.
\<close>

theorem C9_root_output_not_collected:
  "ostream (final_state
      (recur ParallelGuesser parallel_config plain_fmt uniform_oracle [] 1 new_Guesser)) =
     line_of plain_fmt ([CHR 0x0A], 1 / 3)
   \<and> fork_points (final_state
      (recur ParallelGuesser parallel_config plain_fmt uniform_oracle [] 1 new_Guesser)) =
     [(''a'', 1 / 3), (''b'', 1 / 3)]
   \<and> map_sum id snd (parallel_guess parallel_config plain_fmt uniform_oracle) =
     Inr (concat (map (line_of plain_fmt)
       [(''a'' @ [CHR 0x0A], 1 / 9), (''aa'' @ [CHR 0x0A], 1 / 27), (''ab'' @ [CHR 0x0A], 1 / 27),
        (''b'' @ [CHR 0x0A], 1 / 9), (''ba'' @ [CHR 0x0A], 1 / 27), (''bb'' @ [CHR 0x0A], 1 / 27)]))"
proof -
  have "ostream (final_state
      (recur ParallelGuesser parallel_config plain_fmt uniform_oracle [] 1 new_Guesser)) =
     line_of plain_fmt ([CHR 0x0A], 1 / 3)"
    by code_simp
  moreover have "fork_points (final_state
      (recur ParallelGuesser parallel_config plain_fmt uniform_oracle [] 1 new_Guesser)) =
     [(''a'', 1 / 3), (''b'', 1 / 3)]"
    by code_simp
  moreover have "map_sum id snd (parallel_guess parallel_config plain_fmt uniform_oracle) =
     Inr (concat (map (line_of plain_fmt)
       [(''a'' @ [CHR 0x0A], 1 / 9), (''aa'' @ [CHR 0x0A], 1 / 27), (''ab'' @ [CHR 0x0A], 1 / 27),
        (''b'' @ [CHR 0x0A], 1 / 9), (''ba'' @ [CHR 0x0A], 1 / 27), (''bb'' @ [CHR 0x0A], 1 / 27)]))"
    by code_simp
  ultimately show ?thesis by (intro conjI)
qed

end
